theory Spec2Isabelle
  imports Complex_Main
begin

section \<open>The follower nodelet of random\_walker.cpp\<close>

text \<open>
  The theory embeds the three callbacks of class \<open>TurtlebotFollower\<close>
  (\<open>bumperEventCB\<close>, \<open>cloudcb\<close>, \<open>changeModeSrvCb\<close>) as functions on a record of the
  member variables. A callback returns the updated members together with the list of
  messages it publishes on \<open>cmd_vel\<close>, in order. The marker topics (\<open>publishMarker\<close>,
  \<open>publishBbox\<close>) carry debug shapes only and are not part of the model.
\<close>

subsection \<open>Coordinates\<close>

text \<open>
  A coordinate of a \<open>pcl::PointXYZ\<close> and the accumulators \<open>x\<close>, \<open>y\<close>, \<open>z\<close> of
  \<open>cloudcb\<close> are C floats (IEEE 754 binary32). A value is NaN, an infinity or a
  number, written as the real it denotes; the two zeros are not told apart. Every
  ordered comparison with a NaN operand is false.
\<close>

datatype fnum = NaN | PInf | MInf | Fin real

fun isnan :: "fnum \<Rightarrow> bool" where
  "isnan NaN = True"
| "isnan _ = False"

fun fneg :: "fnum \<Rightarrow> fnum" where
  "fneg (Fin a) = Fin (- a)"
| "fneg PInf = MInf"
| "fneg MInf = PInf"
| "fneg NaN = NaN"

fun fless :: "fnum \<Rightarrow> fnum \<Rightarrow> bool" where
  "fless (Fin a) (Fin b) = (a < b)"
| "fless (Fin a) PInf = True"
| "fless MInf (Fin b) = True"
| "fless MInf PInf = True"
| "fless _ _ = False"

text \<open>\<open>std::min(a, b)\<close> is \<open>(b < a) ? b : a\<close>.\<close>

definition fmin :: "fnum \<Rightarrow> fnum \<Rightarrow> fnum" where
  "fmin a b = (if fless b a then b else a)"

text \<open>
  Rounding a real to binary32, to nearest with ties to even. \<open>rne\<close> rounds to an
  integer. \<open>binade a\<close> is the exponent \<open>E\<close> with \<open>2^E \<le> a < 2^(E+1)\<close>, kept
  between \<open>-126\<close> (below it the numbers are subnormal and share the spacing
  \<open>2^-149\<close>) and \<open>128\<close> (from there on the result is an infinity). A number in the
  binade \<open>E\<close> is rounded to a multiple of \<open>2^(E-23)\<close>; a result of magnitude
  \<open>2^128\<close> overflows.
\<close>

definition rne :: "real \<Rightarrow> int" where
  "rne y =
     (let f = \<lfloor>y\<rfloor>; d = y - of_int f
      in if d < 1 / 2 then f
         else if 1 / 2 < d then f + 1
         else if even f then f else f + 1)"

fun binade_from :: "real \<Rightarrow> int \<Rightarrow> nat \<Rightarrow> int" where
  "binade_from a k 0 = k"
| "binade_from a k (Suc n) = (if 2 powi (k + 1) \<le> a then binade_from a (k + 1) n else k)"

definition binade :: "real \<Rightarrow> int" where
  "binade a = binade_from a (- 126) 254"

definition round32 :: "real \<Rightarrow> fnum" where
  "round32 x =
     (let q = 2 powi (binade \<bar>x\<bar> - 23);
          r = of_int (rne (x / q)) * q
      in if 2 powi 128 \<le> r then PInf
         else if r \<le> - (2 powi 128) then MInf
         else Fin r)"

text \<open>Addition of two floats (\<open>x += pt.x\<close>, \<open>y += pt.y\<close>): the exact sum, rounded.\<close>

fun fadd :: "fnum \<Rightarrow> fnum \<Rightarrow> fnum" where
  "fadd (Fin a) (Fin b) = round32 (a + b)"
| "fadd NaN _ = NaN"
| "fadd _ NaN = NaN"
| "fadd PInf MInf = NaN"
| "fadd MInf PInf = NaN"
| "fadd PInf _ = PInf"
| "fadd _ PInf = PInf"
| "fadd MInf _ = MInf"
| "fadd _ MInf = MInf"

text \<open>
  Division of two floats (\<open>x /= n\<close>, \<open>y /= n\<close>, with \<open>n\<close> converted to float): the
  exact quotient, rounded. A zero divisor counts as \<open>+0\<close>; the code divides under
  \<open>n > 4000\<close> only.
\<close>

fun fdiv :: "fnum \<Rightarrow> fnum \<Rightarrow> fnum" where
  "fdiv (Fin a) (Fin b) =
     (if b = 0 then (if a = 0 then NaN else if 0 < a then PInf else MInf)
      else round32 (a / b))"
| "fdiv PInf (Fin b) = (if b < 0 then MInf else PInf)"
| "fdiv MInf (Fin b) = (if b < 0 then PInf else MInf)"
| "fdiv (Fin a) PInf = Fin 0"
| "fdiv (Fin a) MInf = Fin 0"
| "fdiv _ _ = NaN"

text \<open>
  The difference \<open>z - goal_z_\<close> is taken in double precision and only compared with 0.
  The rounded difference of two doubles has the sign of the exact one (it is zero only
  when they are equal), so the difference is kept exact here.
\<close>

fun fsub :: "fnum \<Rightarrow> fnum \<Rightarrow> fnum" where
  "fsub (Fin a) (Fin b) = Fin (a - b)"
| "fsub PInf (Fin b) = PInf"
| "fsub MInf (Fin b) = MInf"
| "fsub (Fin a) PInf = MInf"
| "fsub (Fin a) MInf = PInf"
| "fsub PInf MInf = PInf"
| "fsub MInf PInf = MInf"
| "fsub _ _ = NaN"

subsection \<open>Messages\<close>

record point =
  px :: fnum
  py :: fnum
  pz :: fnum

text \<open>
  A \<open>geometry_msgs::Twist\<close>; the code writes \<open>linear.x\<close> and \<open>angular.z\<close> only, the
  other four components keep the zero of a fresh message.
\<close>

record twist =
  linear_x :: real
  angular_z :: real

definition new_twist :: twist where
  "new_twist = \<lparr>linear_x = 0, angular_z = 0\<rparr>"

datatype bumper = LEFT | CENTER | RIGHT

datatype bumper_state = PRESSED | RELEASED

record bumper_event =
  ev_bumper :: bumper
  ev_state :: bumper_state

datatype follow_state = STOPPED | FOLLOW

datatype srv_result = OK | ERROR

text \<open>
  What one call of \<open>cloudcb\<close> reads from outside the object: the points of the cloud,
  the value \<open>rand()\<close> returns (it is called at most once per call, right after
  \<open>srand\<close>), and the value of \<open>ros::ok()\<close> at the k-th loop test of the call.
  The counter \<open>n\<close> is an \<open>unsigned int\<close>; it is modelled as a natural number, a cloud
  delivered as one ROS message holding fewer than \<open>2 ^ 32\<close> points.
\<close>

record frame =
  points :: "point list"
  rand_val :: nat
  ros_ok :: "nat \<Rightarrow> bool"

subsection \<open>Member variables\<close>

record follower =
  min_y :: real
  max_y :: real
  min_x :: real
  max_x :: real
  max_z :: real
  goal_z :: real
  z_scale :: real
  x_scale :: real
  enabled :: bool
  bumper_left_pressed :: bool
  bumper_center_pressed :: bool
  bumper_right_pressed :: bool
  change_direction :: bool

text \<open>
  The constructor's initialiser list. \<open>enabled_\<close> is not in it; \<open>onInit\<close> reads it
  from the parameter server, so it is a parameter here.
\<close>

definition init_follower :: "bool \<Rightarrow> follower" where
  "init_follower en =
     \<lparr>min_y = 0.1, max_y = 0.5, min_x = -0.2, max_x = 0.2, max_z = 0.8, goal_z = 0.6,
      z_scale = 1.0, x_scale = 5.0, enabled = en,
      bumper_left_pressed = False, bumper_center_pressed = False,
      bumper_right_pressed = False, change_direction = False\<rparr>"

subsection \<open>bumperEventCB\<close>

text \<open>
  The second component is the list of \<open>ROS_INFO\<close> lines of the call: the callback logs
  one line exactly where it sets \<open>change_direction_\<close>.
\<close>

fun bumperEventCB :: "follower \<Rightarrow> bumper_event \<Rightarrow> follower \<times> string list" where
  "bumperEventCB s msg =
     (if ev_state msg = PRESSED then
        (case ev_bumper msg of
           LEFT \<Rightarrow>
             if \<not> bumper_left_pressed s
             then (s\<lparr>bumper_left_pressed := True, change_direction := True\<rparr>,
                   [''bumper_left_pressed_,bumperEventCB''])
             else (s, [])
         | CENTER \<Rightarrow>
             if \<not> bumper_center_pressed s
             then (s\<lparr>bumper_center_pressed := True, change_direction := True\<rparr>,
                   [''bumper_center_pressed_,bumperEventCB''])
             else (s, [])
         | RIGHT \<Rightarrow>
             if \<not> bumper_right_pressed s
             then (s\<lparr>bumper_right_pressed := True, change_direction := True\<rparr>,
                   [''bumper_right_pressed_''])
             else (s, []))
      else
        (case ev_bumper msg of
           LEFT \<Rightarrow> (s\<lparr>bumper_left_pressed := False\<rparr>, [])
         | CENTER \<Rightarrow> (s\<lparr>bumper_center_pressed := False\<rparr>, [])
         | RIGHT \<Rightarrow> (s\<lparr>bumper_right_pressed := False\<rparr>, [])))"

text \<open>A sequence of bumper events, delivered in order; the log lines are collected.\<close>

fun bumper_events :: "follower \<Rightarrow> bumper_event list \<Rightarrow> follower \<times> string list" where
  "bumper_events s [] = (s, [])"
| "bumper_events s (e # es) =
     (case bumperEventCB s e of (s', l) \<Rightarrow>
        (case bumper_events s' es of (s'', ls) \<Rightarrow> (s'', l @ ls)))"

subsection \<open>changeModeSrvCb\<close>

text \<open>
  Returns the members, the messages published on \<open>cmd_vel\<close>, \<open>response.result\<close> and
  the value the callback returns.
\<close>

definition changeModeSrvCb ::
  "follower \<Rightarrow> follow_state \<Rightarrow> follower \<times> twist list \<times> srv_result \<times> bool" where
  "changeModeSrvCb s request_state =
     (if enabled s = True \<and> request_state = STOPPED
      then (s\<lparr>enabled := False\<rparr>, [new_twist], OK, True)
      else if enabled s = False \<and> request_state = FOLLOW
      then (s\<lparr>enabled := True\<rparr>, [], OK, True)
      else (s, [], OK, True))"

subsection \<open>cloudcb: the sums over the cloud\<close>

record totals =
  sum_x :: fnum
  sum_y :: fnum
  low_z :: fnum
  num :: nat

text \<open>The locals \<open>x = 0.0\<close>, \<open>y = 0.0\<close>, \<open>z = 1e6\<close>, \<open>n = 0\<close>.\<close>

definition totals0 :: totals where
  "totals0 = \<lparr>sum_x = Fin 0, sum_y = Fin 0, low_z = Fin 1000000, num = 0\<rparr>"

text \<open>The test of line 219.\<close>

definition in_box :: "follower \<Rightarrow> point \<Rightarrow> bool" where
  "in_box s pt \<longleftrightarrow>
     fless (Fin (min_y s)) (fneg (py pt)) \<and> fless (fneg (py pt)) (Fin (max_y s)) \<and>
     fless (px pt) (Fin (max_x s)) \<and> fless (Fin (min_x s)) (px pt) \<and>
     fless (pz pt) (Fin (max_z s))"

text \<open>
  The body of the \<open>BOOST_FOREACH\<close> loop. The NaN test of line 216 reads the
  accumulators \<open>x\<close>, \<open>y\<close>, \<open>z\<close>, not the point.
\<close>

definition point_step :: "follower \<Rightarrow> totals \<Rightarrow> point \<Rightarrow> totals" where
  "point_step s a pt =
     (if \<not> isnan (sum_x a) \<and> \<not> isnan (sum_y a) \<and> \<not> isnan (low_z a) then
        (if in_box s pt
         then \<lparr>sum_x = fadd (sum_x a) (px pt), sum_y = fadd (sum_y a) (py pt),
               low_z = fmin (low_z a) (pz pt), num = num a + 1\<rparr>
         else a)
      else a)"

definition accumulate :: "follower \<Rightarrow> point list \<Rightarrow> totals" where
  "accumulate s pts = foldl (point_step s) totals0 pts"

text \<open>
  The centroid as the code has it after line 235: \<open>found\<close> is the test \<open>n > 4000\<close>;
  \<open>x\<close> and \<open>y\<close> are divided by \<open>n\<close> only when it holds. The division is a float
  division, for which \<open>n\<close> is converted to float.
\<close>

record centroid =
  cx :: fnum
  cy :: fnum
  z_min :: fnum
  count :: nat
  found :: bool

definition box_centroid :: "follower \<Rightarrow> point list \<Rightarrow> centroid" where
  "box_centroid s pts =
     (let a = accumulate s pts; n = num a in
      if n > 4000
      then \<lparr>cx = fdiv (sum_x a) (round32 (real n)), cy = fdiv (sum_y a) (round32 (real n)),
            z_min = low_z a, count = n, found = True\<rparr>
      else \<lparr>cx = sum_x a, cy = sum_y a, z_min = low_z a, count = n, found = False\<rparr>)"

subsection \<open>cloudcb: the recovery loops\<close>

text \<open>
  \<open>while (ros::ok() && change_direction_) { count++; cmd->angular.z = a;
  cmd->linear.x = l; publish(cmd); sleep; if (count > budget) { change_direction_ =
  false; count = 0; } }\<close>. The arguments are the two constants, the bound of the test on
  \<open>count\<close>, the index of the next loop test, \<open>count\<close> and \<open>change_direction_\<close>; the
  result is \<open>change_direction_\<close> after the loop and the messages published.
\<close>

function recovery_loop ::
  "(nat \<Rightarrow> bool) \<Rightarrow> real \<Rightarrow> real \<Rightarrow> nat \<Rightarrow> nat \<Rightarrow> nat \<Rightarrow> bool \<Rightarrow> twist list \<Rightarrow> bool \<times> twist list" where
  "recovery_loop ok a l budget k cnt cd out =
     (if ok k \<and> cd then
        (let cnt' = cnt + 1;
             out' = out @ [new_twist\<lparr>angular_z := a, linear_x := l\<rparr>]
         in if cnt' > budget
            then recovery_loop ok a l budget (k + 1) 0 False out'
            else recovery_loop ok a l budget (k + 1) cnt' cd out')
      else (cd, out))"
  by pat_completeness auto
termination
  by (relation "measure (\<lambda>(ok, a, l, budget, k, cnt, cd, out).
        if cd then Suc (Suc budget - cnt) else 0)") auto

declare recovery_loop.simps [simp del]

definition recover :: "follower \<Rightarrow> frame \<Rightarrow> real \<Rightarrow> real \<Rightarrow> nat \<Rightarrow> follower \<times> twist list" where
  "recover s f a l budget =
     (case recovery_loop (ros_ok f) a l budget 0 0 (change_direction s) [] of
        (cd, out) \<Rightarrow> (s\<lparr>change_direction := cd\<rparr>, out))"

subsection \<open>cloudcb: the turn of the two regimes\<close>

text \<open>
  Lines 283 to 325 (the branch \<open>z - goal_z_ > 0\<close>, no bumper pressed). \<open>direction\<close> is
  the value of the local at the entry of the branch.
\<close>

definition approach_cmd :: "bool \<Rightarrow> bool \<Rightarrow> fnum \<Rightarrow> nat \<Rightarrow> twist" where
  "approach_cmd direction cd x rnd =
     (let cmd = new_twist\<lparr>linear_x := 0.2\<rparr> in
      if fless (Fin 0.2) x then
        (let rand_angular = real (rnd mod 7) / 7.0 in
         if rand_angular > 0.7 \<and> rand_angular \<le> 1.0 then cmd\<lparr>angular_z := 0.4\<rparr>
         else if rand_angular > 0.4 \<and> rand_angular \<le> 0.7 then cmd\<lparr>angular_z := rand_angular\<rparr>
         else cmd\<lparr>angular_z := 0.3\<rparr>)
      else if fless x (Fin (- 0.2)) then
        (let rand_angular = real (rnd mod 7) / 7.0 - 1.0 in
         if rand_angular \<ge> - 1.0 \<and> rand_angular < - 0.7 then cmd\<lparr>angular_z := - 0.36\<rparr>
         else if rand_angular \<ge> - 0.7 \<and> rand_angular < - 0.5 then cmd\<lparr>angular_z := rand_angular\<rparr>
         else cmd\<lparr>angular_z := - 0.2\<rparr>)
      else
        (if direction then cmd\<lparr>angular_z := 0.3\<rparr>
         else if \<not> cd then cmd\<lparr>angular_z := - 0.3\<rparr>
         else cmd))"

text \<open>Lines 370 to 414 (the other branch, no bumper pressed), with \<open>MAX = 10\<close>.\<close>

definition hold_cmd :: "bool \<Rightarrow> fnum \<Rightarrow> nat \<Rightarrow> twist" where
  "hold_cmd direction x rnd =
     (let cmd = new_twist\<lparr>linear_x := 0\<rparr> in
      if fless (Fin 0.2) x then
        (let ang = real (rnd mod 10) / 10 in
         if ang > 0.7 \<and> ang \<le> 1 then cmd\<lparr>angular_z := 0.4\<rparr>
         else if ang > 0.4 \<and> ang \<le> 0.7 then cmd\<lparr>angular_z := ang\<rparr>
         else cmd\<lparr>angular_z := 0.3\<rparr>)
      else if fless x (Fin (- 0.2)) then
        (let ang = real (rnd mod 10) / 10 - 1.0 in
         if ang \<ge> - 1.0 \<and> ang < - 0.7 then cmd\<lparr>angular_z := - 0.2\<rparr>
         else if ang \<ge> - 0.7 \<and> ang < - 0.4 then cmd\<lparr>angular_z := ang\<rparr>
         else cmd\<lparr>angular_z := - 0.2\<rparr>)
      else
        (if direction then cmd\<lparr>angular_z := 0.3\<rparr>
         else cmd\<lparr>angular_z := - 0.3\<rparr>))"

subsection \<open>cloudcb\<close>

text \<open>
  \<open>direction\<close> is a local of the call, initialised to 0; the branches that assign it
  publish without reading it, so the two places that read it see the initial value.
\<close>

definition cloudcb :: "follower \<Rightarrow> frame \<Rightarrow> follower \<times> twist list" where
  "cloudcb s f =
     (let c = box_centroid s (points f);
          direction = False
      in if found c then
           (if fless (Fin 0) (fsub (z_min c) (Fin (goal_z s))) then
              (if bumper_left_pressed s then recover s f (- 0.4) (- 0.2) 15
               else if bumper_center_pressed s then recover s f (- 0.5) (- 0.2) 20
               else if bumper_right_pressed s then recover s f 0.4 (- 0.2) 15
               else (s, [approach_cmd direction (change_direction s) (cx c) (rand_val f)]))
            else
              (if bumper_left_pressed s then recover s f (- 0.4) (- 0.2) 15
               else if bumper_center_pressed s then recover s f (- 0.4) (- 0.2) 20
               else if bumper_right_pressed s then recover s f 0.4 (- 0.2) 15
               else (s, [hold_cmd direction (cx c) (rand_val f)])))
         else if enabled s then
           (if bumper_left_pressed s then recover s f (- 0.4) (- 0.2) 15
            else if bumper_center_pressed s then recover s f (- 0.5) (- 0.2) 20
            else if bumper_right_pressed s then recover s f 0.4 (- 0.2) 15
            else (s, [new_twist\<lparr>linear_x := 0.2\<rparr>]))
         else (s, []))"

subsection \<open>reconfigure\<close>

record config =
  cfg_min_y :: real
  cfg_max_y :: real
  cfg_min_x :: real
  cfg_max_x :: real
  cfg_max_z :: real
  cfg_goal_z :: real
  cfg_z_scale :: real
  cfg_x_scale :: real

definition reconfigure :: "follower \<Rightarrow> config \<Rightarrow> follower" where
  "reconfigure s c =
     s\<lparr>min_y := cfg_min_y c, max_y := cfg_max_y c, min_x := cfg_min_x c,
       max_x := cfg_max_x c, max_z := cfg_max_z c, goal_z := cfg_goal_z c,
       z_scale := cfg_z_scale c, x_scale := cfg_x_scale c\<rparr>"

subsection \<open>Events and runs\<close>

text \<open>
  The callbacks are delivered one at a time, each running to its end before the next
  starts; a run collects what each event publishes on \<open>cmd_vel\<close>.
\<close>

datatype event = Bumper bumper_event | Cloud frame | Mode follow_state | Reconfigure config

fun deliver :: "follower \<Rightarrow> event \<Rightarrow> follower \<times> twist list" where
  "deliver s (Bumper e) = (fst (bumperEventCB s e), [])"
| "deliver s (Cloud f) = cloudcb s f"
| "deliver s (Mode r) = (case changeModeSrvCb s r of (s', out, _) \<Rightarrow> (s', out))"
| "deliver s (Reconfigure c) = (reconfigure s c, [])"

fun run :: "follower \<Rightarrow> event list \<Rightarrow> follower \<times> twist list list" where
  "run s [] = (s, [])"
| "run s (e # es) =
     (case deliver s e of (s', out) \<Rightarrow>
        (case run s' es of (s'', outs) \<Rightarrow> (s'', out # outs)))"

definition press :: "bumper \<Rightarrow> bumper_event" where
  "press b = \<lparr>ev_bumper = b, ev_state = PRESSED\<rparr>"

definition release :: "bumper \<Rightarrow> bumper_event" where
  "release b = \<lparr>ev_bumper = b, ev_state = RELEASED\<rparr>"

text \<open>The pressed flag of a side.\<close>

fun pressed :: "follower \<Rightarrow> bumper \<Rightarrow> bool" where
  "pressed s LEFT = bumper_left_pressed s"
| "pressed s CENTER = bumper_center_pressed s"
| "pressed s RIGHT = bumper_right_pressed s"

text \<open>
  The side whose branch \<open>cloudcb\<close> takes: each of its three if-chains tests left, then
  center, then right.
\<close>

definition first_pressed :: "follower \<Rightarrow> bumper option" where
  "first_pressed s =
     (if bumper_left_pressed s then Some LEFT
      else if bumper_center_pressed s then Some CENTER
      else if bumper_right_pressed s then Some RIGHT
      else None)"

text \<open>The test \<open>z - goal_z_ > 0\<close> of line 236.\<close>

definition approaching :: "follower \<Rightarrow> centroid \<Rightarrow> bool" where
  "approaching s c \<longleftrightarrow> fless (Fin 0) (fsub (z_min c) (Fin (goal_z s)))"

text \<open>
  A frame makes a decisive turn when it reaches one of the branches that assign
  \<open>direction\<close>: a centroid is found, no bumper flag is set, and \<open>x > 0.2\<close>
  (\<open>direction = 1\<close>, lines 285 and 378) or else \<open>x < -0.2\<close> (\<open>direction = 0\<close>, lines
  301 and 394).
\<close>

datatype turn = TurnLeft | TurnRight

definition decisive_turn :: "follower \<Rightarrow> frame \<Rightarrow> turn option" where
  "decisive_turn s f =
     (let c = box_centroid s (points f)
      in if found c \<and> first_pressed s = None then
           (if fless (Fin 0.2) (cx c) then Some TurnRight
            else if fless (cx c) (Fin (- 0.2)) then Some TurnLeft
            else None)
         else None)"

text \<open>The last decisive turn of a run, \<open>t\<close> being the last one before the run.\<close>

fun last_turn :: "follower \<Rightarrow> event list \<Rightarrow> turn option \<Rightarrow> turn option" where
  "last_turn s [] t = t"
| "last_turn s (e # es) t =
     last_turn (fst (deliver s e)) es
       (case e of
          Cloud f \<Rightarrow> (case decisive_turn s f of Some d \<Rightarrow> Some d | None \<Rightarrow> t)
        | _ \<Rightarrow> t)"

text \<open>
  The table of the recovery manoeuvre as the specification gives it (section 4.3), to
  compare the published commands with.
\<close>

fun recovery_cmd :: "bumper \<Rightarrow> twist" where
  "recovery_cmd LEFT = \<lparr>linear_x = - 0.2, angular_z = - 0.4\<rparr>"
| "recovery_cmd CENTER = \<lparr>linear_x = - 0.2, angular_z = - 0.5\<rparr>"
| "recovery_cmd RIGHT = \<lparr>linear_x = - 0.2, angular_z = 0.4\<rparr>"

text \<open>
  Concrete frames, with \<open>ros::ok()\<close> true throughout: an empty cloud, and a cloud of
  \<open>n\<close> copies of the point \<open>(a, b, c)\<close> with \<open>rand()\<close> returning \<open>r\<close>.
\<close>

definition still :: frame where
  "still = \<lparr>points = [], rand_val = 0, ros_ok = (\<lambda>k. True)\<rparr>"

definition cloud_of :: "nat \<Rightarrow> real \<Rightarrow> real \<Rightarrow> real \<Rightarrow> nat \<Rightarrow> frame" where
  "cloud_of n a b c r =
     \<lparr>points = replicate n \<lparr>px = Fin a, py = Fin b, pz = Fin c\<rparr>, rand_val = r,
      ros_ok = (\<lambda>k. True)\<rparr>"

text \<open>The default configuration with the box widened to \<open>-0.5 < x < 0.5\<close>.\<close>

definition wide_box :: config where
  "wide_box =
     \<lparr>cfg_min_y = 0.1, cfg_max_y = 0.5, cfg_min_x = - 0.5, cfg_max_x = 0.5,
      cfg_max_z = 0.8, cfg_goal_z = 0.6, cfg_z_scale = 1.0, cfg_x_scale = 5.0\<rparr>"

text \<open>The number a coordinate holds (0 when it holds none).\<close>

fun val :: "fnum \<Rightarrow> real" where
  "val (Fin a) = a"
| "val _ = 0"

section \<open>Properties\<close>

subsection \<open>Rounding\<close>

lemma rne_of_int: "rne (of_int i) = i"
  by (simp add: rne_def)

lemma binade_from_lower: "k \<le> binade_from a k n"
proof (induction n arbitrary: k)
  case 0
  show ?case by simp
next
  case (Suc n)
  from Suc [of "k + 1"] show ?case by simp
qed

lemma binade_from_upper: "binade_from a k n \<le> k + int n"
proof (induction n arbitrary: k)
  case 0
  show ?case by simp
next
  case (Suc n)
  from Suc [of "k + 1"] show ?case by simp
qed

lemma binade_from_le: "k < binade_from a k n \<Longrightarrow> 2 powi (binade_from a k n) \<le> a"
proof (induction n arbitrary: k)
  case 0
  then show ?case by simp
next
  case (Suc n)
  show ?case
  proof (cases "2 powi (k + 1) \<le> a")
    case True
    show ?thesis
    proof (cases "k + 1 < binade_from a (k + 1) n")
      case True
      with Suc.IH [of "k + 1"] \<open>2 powi (k + 1) \<le> a\<close> show ?thesis by simp
    next
      case False
      with binade_from_lower [of "k + 1" a n] have "binade_from a (k + 1) n = k + 1" by simp
      with True show ?thesis by simp
    qed
  next
    case False
    with Suc.prems show ?thesis by simp
  qed
qed

lemma binade_from_eq:
  "j \<le> k \<Longrightarrow> k \<le> j + int n \<Longrightarrow> 2 powi k \<le> a \<Longrightarrow> a < 2 powi (k + 1) \<Longrightarrow>
   binade_from a j n = k"
proof (induction n arbitrary: j)
  case 0
  then show ?case by simp
next
  case (Suc n)
  show ?case
  proof (cases "j = k")
    case True
    with Suc.prems show ?thesis by simp
  next
    case False
    with Suc.prems have jk: "j + 1 \<le> k" by simp
    then have "(2::real) powi (j + 1) \<le> 2 powi k"
      by (intro power_int_increasing) simp_all
    with Suc.prems have "2 powi (j + 1) \<le> a" by simp
    moreover have "binade_from a (j + 1) n = k"
      using Suc.prems jk by (intro Suc.IH) simp_all
    ultimately show ?thesis by simp
  qed
qed

lemma binade_range: "- 126 \<le> binade a" "binade a \<le> 128"
  using binade_from_lower [of "- 126" a 254] binade_from_upper [of a "- 126" 254]
  by (simp_all add: binade_def)

lemma binade_le: "- 126 < binade a \<Longrightarrow> 2 powi (binade a) \<le> a"
  unfolding binade_def by (rule binade_from_le)

lemma binade_eq:
  "- 126 \<le> k \<Longrightarrow> k \<le> 128 \<Longrightarrow> 2 powi k \<le> a \<Longrightarrow> a < 2 powi (k + 1) \<Longrightarrow> binade a = k"
  unfolding binade_def by (rule binade_from_eq) simp_all

lemma round32_exact:
  assumes m: "\<bar>m\<bar> < 2 ^ 24" and e: "- 149 \<le> e" "e \<le> 104"
  shows "round32 (of_int m * 2 powi e) = Fin (of_int m * 2 powi e)"
proof -
  let ?x = "of_int m * (2::real) powi e"
  let ?E = "binade \<bar>?x\<bar>"
  have le: "?E - 23 \<le> e"
  proof (cases "- 126 < ?E")
    case True
    then have "2 powi ?E \<le> \<bar>?x\<bar>" by (rule binade_le)
    also have "\<bar>?x\<bar> = of_int \<bar>m\<bar> * 2 powi e"
      by (simp add: abs_mult)
    also have "\<dots> < 2 ^ 24 * 2 powi e"
    proof -
      have "(of_int \<bar>m\<bar> :: real) < of_int (2 ^ 24)"
        using m by (simp only: of_int_less_iff)
      then show ?thesis by simp
    qed
    also have "\<dots> = 2 powi (24 + e)"
      by (simp add: power_int_add)
    finally have "(2::real) powi ?E < 2 powi (24 + e)" .
    then have "?E < 24 + e"
      by (metis linorder_not_less one_le_numeral power_int_increasing)
    then show ?thesis by simp
  next
    case False
    with binade_range(1) [of "\<bar>?x\<bar>"] have "?E = - 126" by simp
    with e show ?thesis by simp
  qed
  define d where "d = nat (e - (?E - 23))"
  have d: "e = (?E - 23) + int d"
    using le by (simp add: d_def)
  have "?x / 2 powi (?E - 23) = of_int m * (2 powi e / 2 powi (?E - 23))"
    by simp
  also have "2 powi e / 2 powi (?E - 23) = (2::real) powi (e - (?E - 23))"
    by (simp add: power_int_diff)
  also have "\<dots> = 2 ^ d"
    using le by (simp add: d_def power_int_nonneg_exp)
  finally have q: "?x / 2 powi (?E - 23) = of_int (m * 2 ^ d)"
    by simp
  have restore: "of_int (m * 2 ^ d) * 2 powi (?E - 23) = ?x"
  proof -
    have "(2::real) ^ d * 2 powi (?E - 23) = 2 powi (int d + (?E - 23))"
      by (simp add: power_int_add)
    also have "\<dots> = 2 powi e"
      using d by (simp add: add.commute)
    finally show ?thesis by (simp add: mult.assoc)
  qed
  have bound: "\<bar>?x\<bar> < 2 powi 128"
  proof -
    have "\<bar>?x\<bar> = of_int \<bar>m\<bar> * 2 powi e"
      by (simp add: abs_mult)
    also have "\<dots> < 2 ^ 24 * 2 powi e"
    proof -
      have "(of_int \<bar>m\<bar> :: real) < of_int (2 ^ 24)"
        using m by (simp only: of_int_less_iff)
      then show ?thesis by simp
    qed
    also have "\<dots> = 2 powi (24 + e)"
      by (simp add: power_int_add)
    also have "\<dots> \<le> 2 powi 128"
      using e by (intro power_int_increasing) simp_all
    finally show ?thesis .
  qed
  then have "\<not> 2 powi 128 \<le> ?x" "\<not> ?x \<le> - (2 powi 128)"
    by (simp_all add: abs_less_iff)
  then show ?thesis
    unfolding round32_def Let_def q rne_of_int restore by simp
qed

lemma round32_not_nan: "\<not> isnan (round32 x)"
  by (simp add: round32_def Let_def)

lemma round32_multiple:
  assumes "\<bar>m\<bar> * int n < 2 ^ 24" and "k \<le> n" and "- 149 \<le> e" and "e \<le> 104"
  shows "round32 (real k * (of_int m * 2 powi e)) = Fin (real k * (of_int m * 2 powi e))"
proof -
  have "\<bar>int k * m\<bar> = \<bar>m\<bar> * int k"
    by (simp add: abs_mult mult.commute)
  also have "\<dots> \<le> \<bar>m\<bar> * int n"
    using assms(2) by (intro mult_left_mono) simp_all
  finally have "\<bar>int k * m\<bar> < 2 ^ 24"
    using assms(1) by simp
  from round32_exact [OF this assms(3,4)] show ?thesis
    by (simp add: mult.assoc)
qed

text \<open>
  Rounding errs by at most half a unit in the last place: a relative error of \<open>2^-24\<close>,
  or \<open>2^-150\<close> among the subnormal numbers.
\<close>

lemma rne_error: "\<bar>real_of_int (rne y) - y\<bar> \<le> 1 / 2"
proof -
  have "real_of_int \<lfloor>y\<rfloor> \<le> y" "y < real_of_int \<lfloor>y\<rfloor> + 1"
    by linarith+
  then show ?thesis
    by (auto simp add: rne_def Let_def)
qed

lemma round32_error:
  assumes "\<bar>x\<bar> \<le> 2 ^ 127"
  shows "\<exists>r. round32 x = Fin r \<and> \<bar>r - x\<bar> \<le> \<bar>x\<bar> / 2 ^ 24 + 1 / 2 ^ 150"
proof -
  define E where "E = binade \<bar>x\<bar>"
  define q :: real where "q = 2 powi (E - 23)"
  define r where "r = of_int (rne (x / q)) * q"
  have q0: "0 < q" by (simp add: q_def)
  have "\<bar>r - x\<bar> = \<bar>of_int (rne (x / q)) - x / q\<bar> * q"
  proof -
    have "r - x = (of_int (rne (x / q)) - x / q) * q"
      using q0 by (simp add: r_def field_simps)
    then show ?thesis using q0 by (simp add: abs_mult)
  qed
  also have "\<dots> \<le> 1 / 2 * q"
    using rne_error [of "x / q"] q0 by (intro mult_right_mono) simp_all
  finally have e: "\<bar>r - x\<bar> \<le> q / 2" by simp
  have half: "q / 2 = 2 powi (E - 24)"
  proof -
    have "(2::real) powi (E - 24) = 2 powi (E - 23 - 1)" by simp
    also have "\<dots> = 2 powi (E - 23) / 2"
      by (subst power_int_diff) simp_all
    finally show ?thesis by (simp add: q_def)
  qed
  have b: "q / 2 \<le> \<bar>x\<bar> / 2 ^ 24 + 1 / 2 ^ 150"
  proof (cases "- 126 < E")
    case True
    then have "2 powi E \<le> \<bar>x\<bar>"
      unfolding E_def by (rule binade_le)
    moreover have "(2::real) powi (E - 24) = 2 powi E / 2 ^ 24"
      by (subst power_int_diff) simp_all
    ultimately have "q / 2 \<le> \<bar>x\<bar> / 2 ^ 24"
      unfolding half by (simp add: divide_right_mono)
    then show ?thesis by simp
  next
    case False
    with binade_range(1) [of "\<bar>x\<bar>"] have "E = - 126" by (simp add: E_def)
    then have "q / 2 = 1 / 2 ^ 150"
      unfolding half by (simp add: power_int_minus_divide)
    then show ?thesis by simp
  qed
  from e b have err: "\<bar>r - x\<bar> \<le> \<bar>x\<bar> / 2 ^ 24 + 1 / 2 ^ 150" by simp
  have "\<bar>r\<bar> \<le> \<bar>x\<bar> + \<bar>r - x\<bar>" by simp
  also have "\<dots> \<le> \<bar>x\<bar> + \<bar>x\<bar> / 2 ^ 24 + 1 / 2 ^ 150" using err by simp
  also have "\<dots> \<le> 2 ^ 127 + 2 ^ 127 / 2 ^ 24 + 1 / 2 ^ 150"
    using assms by (simp add: divide_right_mono add_mono)
  also have "\<dots> < 2 ^ 128" by simp
  finally have "\<bar>r\<bar> < 2 powi 128" by simp
  then have "\<not> 2 powi 128 \<le> r" "\<not> r \<le> - (2 powi 128)"
    by (simp_all add: abs_less_iff)
  then have "round32 x = Fin r"
    by (simp add: round32_def Let_def r_def q_def E_def)
  with err show ?thesis by blast
qed

subsection \<open>The order of the coordinates\<close>

lemma fless_irrefl: "\<not> fless a a"
  by (cases a) simp_all

lemma fless_trans: "fless a b \<Longrightarrow> fless b c \<Longrightarrow> fless a c"
  by (cases a; cases b; cases c) simp_all

lemma fless_not_nan: "fless a b \<Longrightarrow> \<not> isnan a \<and> \<not> isnan b"
  by (cases a; cases b) simp_all

lemma fmin_not_nan: "\<not> isnan a \<Longrightarrow> \<not> isnan b \<Longrightarrow> \<not> isnan (fmin a b)"
  by (simp add: fmin_def)

lemma fadd_not_nan: "\<not> isnan a \<Longrightarrow> \<not> isnan (fadd a (Fin b))"
  by (cases a) (simp_all add: round32_not_nan)

text \<open>
  The least of a start value and a list: it is the start value or a member, and nothing
  is below it.
\<close>

lemma fmin_eq: "fless b a \<Longrightarrow> fmin a b = b" "\<not> fless b a \<Longrightarrow> fmin a b = a"
  by (simp_all add: fmin_def)

lemma fmin_cases: "fmin a b = a \<or> fmin a b = b"
  by (simp add: fmin_def)

lemma fmin_idem: "fmin (fmin w z) z = fmin w z"
  by (cases "fless z w") (simp_all add: fmin_eq fless_irrefl)

lemma not_fless_trans: "\<not> isnan b \<Longrightarrow> \<not> fless a b \<Longrightarrow> \<not> fless b c \<Longrightarrow> \<not> fless a c"
  by (cases a; cases b; cases c) simp_all

lemma foldl_fmin_cases: "foldl fmin w zs = w \<or> foldl fmin w zs \<in> set zs"
proof (induction zs arbitrary: w)
  case Nil
  show ?case by simp
next
  case (Cons z zs)
  from Cons [of "fmin w z"] fmin_cases [of w z] show ?case
    by auto
qed

lemma foldl_fmin_start: "\<not> fless w (foldl fmin w zs)"
proof (induction zs arbitrary: w)
  case Nil
  show ?case by (simp add: fless_irrefl)
next
  case (Cons z zs)
  have r: "\<not> fless (fmin w z) (foldl fmin (fmin w z) zs)"
    by (rule Cons)
  show ?case
  proof (cases "fless z w")
    case True
    with r have "\<not> fless z (foldl fmin (fmin w z) zs)"
      by (simp add: fmin_eq)
    with True have "\<not> fless w (foldl fmin (fmin w z) zs)"
      using fless_not_nan [OF True] not_fless_trans [of z] fless_trans [of z w]
      by (metis fless_irrefl)
    then show ?thesis by simp
  next
    case False
    with r show ?thesis by (simp add: fmin_eq)
  qed
qed

lemma foldl_fmin_lower:
  assumes "\<not> isnan w" and "\<forall>y \<in> set zs. \<not> isnan y" and "z \<in> set zs"
  shows "\<not> fless z (foldl fmin w zs)"
  using assms
proof (induction zs arbitrary: w)
  case Nil
  then show ?case by simp
next
  case (Cons y zs)
  have nn: "\<not> isnan (fmin w y)"
    using Cons.prems by (simp add: fmin_not_nan)
  show ?case
  proof (cases "z \<in> set zs")
    case True
    from Cons.IH [OF nn _ True] Cons.prems(2) show ?thesis by simp
  next
    case False
    with Cons.prems(3) have zy: "z = y" by simp
    have s: "\<not> fless (fmin w y) (foldl fmin (fmin w y) zs)"
      by (rule foldl_fmin_start)
    have "\<not> fless y (fmin w y)"
      by (cases "fless y w") (simp_all add: fmin_eq fless_irrefl)
    from not_fless_trans [OF nn this s] zy show ?thesis by simp
  qed
qed

lemma foldl_fmin_replicate: "foldl fmin (fmin w z) (replicate n z) = fmin w z"
  by (induction n) (simp_all add: fmin_idem)

subsection \<open>The sums over the cloud\<close>

lemma in_box_Fin:
  "in_box s pt \<Longrightarrow> px pt = Fin (val (px pt)) \<and> py pt = Fin (val (py pt)) \<and> \<not> isnan (pz pt)"
  by (cases "px pt"; cases "py pt"; cases "pz pt") (simp_all add: in_box_def)

lemma in_box_below_max_z: "in_box s pt \<Longrightarrow> fless (pz pt) (Fin (max_z s))"
  by (simp add: in_box_def)

lemma nan_not_in_box: "isnan (px pt) \<or> isnan (py pt) \<or> isnan (pz pt) \<Longrightarrow> \<not> in_box s pt"
  by (cases "px pt"; cases "py pt"; cases "pz pt") (simp_all add: in_box_def)

text \<open>
  The accumulators never become NaN, so the test of line 216 never fails: the loop
  adds up the points of the box, in the order of the cloud.
\<close>

lemma foldl_point_step:
  assumes "\<not> isnan X" and "\<not> isnan Y" and "\<not> isnan Z"
  shows "foldl (point_step s) \<lparr>sum_x = X, sum_y = Y, low_z = Z, num = k\<rparr> pts =
     \<lparr>sum_x = foldl fadd X (map px (filter (in_box s) pts)),
      sum_y = foldl fadd Y (map py (filter (in_box s) pts)),
      low_z = foldl fmin Z (map pz (filter (in_box s) pts)),
      num = k + length (filter (in_box s) pts)\<rparr>"
  using assms
proof (induction pts arbitrary: X Y Z k)
  case Nil
  show ?case by simp
next
  case (Cons p pts)
  show ?case
  proof (cases "in_box s p")
    case True
    from in_box_Fin [OF True] obtain a b where
      p: "px p = Fin a" "py p = Fin b" "\<not> isnan (pz p)" by blast
    have step: "point_step s \<lparr>sum_x = X, sum_y = Y, low_z = Z, num = k\<rparr> p =
        \<lparr>sum_x = fadd X (px p), sum_y = fadd Y (py p), low_z = fmin Z (pz p), num = k + 1\<rparr>"
      using True Cons.prems by (simp add: point_step_def)
    have "\<not> isnan (fadd X (px p))" "\<not> isnan (fadd Y (py p))" "\<not> isnan (fmin Z (pz p))"
      using Cons.prems p by (simp_all add: fadd_not_nan fmin_not_nan)
    from Cons.IH [OF this, of "k + 1"] True show ?thesis
      by (simp add: step)
  next
    case False
    then have "point_step s \<lparr>sum_x = X, sum_y = Y, low_z = Z, num = k\<rparr> p =
        \<lparr>sum_x = X, sum_y = Y, low_z = Z, num = k\<rparr>"
      by (simp add: point_step_def)
    with Cons.IH [OF Cons.prems, of k] False show ?thesis
      by simp
  qed
qed

lemma accumulate_eq:
  "accumulate s pts =
     \<lparr>sum_x = foldl fadd (Fin 0) (map px (filter (in_box s) pts)),
      sum_y = foldl fadd (Fin 0) (map py (filter (in_box s) pts)),
      low_z = foldl fmin (Fin 1000000) (map pz (filter (in_box s) pts)),
      num = length (filter (in_box s) pts)\<rparr>"
  unfolding accumulate_def totals0_def by (subst foldl_point_step) simp_all

lemma box_centroid_empty: "\<not> found (box_centroid s [])"
  by (simp add: box_centroid_def accumulate_def totals0_def)

text \<open>
  A cloud of \<open>n\<close> copies of one point of the box whose x and y have so few digits that
  no addition rounds, for the concrete frames below.
\<close>

lemma foldl_fadd_replicate:
  assumes "\<And>k. k \<le> j + n \<Longrightarrow> round32 (real k * a) = Fin (real k * a)"
  shows "foldl fadd (Fin (real j * a)) (replicate n (Fin a)) = Fin (real (j + n) * a)"
  using assms
proof (induction n arbitrary: j)
  case 0
  show ?case by simp
next
  case (Suc n)
  have "fadd (Fin (real j * a)) (Fin a) = round32 (real (Suc j) * a)"
    by (simp add: algebra_simps)
  also have "\<dots> = Fin (real (Suc j) * a)"
    by (rule Suc.prems) simp
  finally have step: "fadd (Fin (real j * a)) (Fin a) = Fin (real (Suc j) * a)" .
  have "foldl fadd (Fin (real j * a)) (replicate (Suc n) (Fin a)) =
      foldl fadd (fadd (Fin (real j * a)) (Fin a)) (replicate n (Fin a))"
    by (simp only: replicate_Suc foldl_Cons)
  also have "\<dots> = foldl fadd (Fin (real (Suc j) * a)) (replicate n (Fin a))"
    by (simp only: step)
  also have "\<dots> = Fin (real (Suc j + n) * a)"
    by (rule Suc.IH) (simp add: Suc.prems)
  finally show ?case
    by (simp only: add_Suc_shift)
qed

lemma box_centroid_replicate:
  assumes box: "in_box s \<lparr>px = Fin a, py = Fin b, pz = Fin c\<rparr>"
    and n: "4000 < n" "n < 2 ^ 24"
    and a: "a = of_int ma * 2 powi ea" "\<bar>ma\<bar> * int n < 2 ^ 24" "- 149 \<le> ea" "ea \<le> 104"
    and b: "b = of_int mb * 2 powi eb" "\<bar>mb\<bar> * int n < 2 ^ 24" "- 149 \<le> eb" "eb \<le> 104"
  shows "box_centroid s (replicate n \<lparr>px = Fin a, py = Fin b, pz = Fin c\<rparr>) =
     \<lparr>cx = Fin a, cy = Fin b, z_min = fmin (Fin 1000000) (Fin c), count = n, found = True\<rparr>"
proof -
  let ?p = "\<lparr>px = Fin a, py = Fin b, pz = Fin c\<rparr>"
  have f: "filter (in_box s) (replicate n ?p) = replicate n ?p"
    using box by simp
  have xa: "round32 (real k * a) = Fin (real k * a)" if "k \<le> n" for k
    unfolding a(1) using a(2) that a(3,4) by (rule round32_multiple)
  have xb: "round32 (real k * b) = Fin (real k * b)" if "k \<le> n" for k
    unfolding b(1) using b(2) that b(3,4) by (rule round32_multiple)
  have sx: "foldl fadd (Fin 0) (replicate n (Fin a)) = Fin (real n * a)"
    using foldl_fadd_replicate [of 0 n a] xa by simp
  have sy: "foldl fadd (Fin 0) (replicate n (Fin b)) = Fin (real n * b)"
    using foldl_fadd_replicate [of 0 n b] xb by simp
  have rn: "round32 (real n) = Fin (real n)"
    using round32_exact [of "int n" 0] n(2) by simp
  have n0: "real n \<noteq> 0"
    using n(1) by simp
  have dx: "fdiv (Fin (real n * a)) (Fin (real n)) = Fin a"
    using xa [of 1] n n0 by simp
  have dy: "fdiv (Fin (real n * b)) (Fin (real n)) = Fin b"
    using xb [of 1] n n0 by simp
  obtain m where m: "n = Suc m"
    using n(1) by (cases n) simp_all
  have sz: "foldl fmin (Fin 1000000) (replicate n (Fin c)) = fmin (Fin 1000000) (Fin c)"
    unfolding m by (simp add: foldl_fmin_replicate)
  show ?thesis
    using n(1)
    by (simp add: box_centroid_def accumulate_eq f sx sy sz rn dx dy del: fdiv.simps)
qed

lemma fless_Fin_mono: "fless a (Fin u) \<Longrightarrow> u \<le> v \<Longrightarrow> fless a (Fin v)"
  by (cases a) simp_all

text \<open>
  The sum of \<open>k\<close> numbers of magnitude at most \<open>B\<close>, added up in single precision,
  and their mean.
\<close>

lemma sum_list_abs_bound:
  "\<forall>a \<in> set as. \<bar>a\<bar> \<le> B \<Longrightarrow> \<bar>sum_list as\<bar> \<le> real (length as) * (B::real)"
proof (induction as)
  case Nil
  show ?case by simp
next
  case (Cons a as)
  then have "\<bar>a\<bar> \<le> B" "\<bar>sum_list as\<bar> \<le> real (length as) * B" by simp_all
  then show ?case by (simp add: algebra_simps)
qed

lemma float_sum_error:
  assumes "\<forall>a \<in> set as. \<bar>a\<bar> \<le> B" and "length as \<le> n" and "real n \<le> 2 ^ 23"
    and "B \<le> 2 ^ 100"
  shows "\<exists>S. foldl fadd (Fin 0) (map Fin as) = Fin S \<and>
     \<bar>S - sum_list as\<bar> \<le> real (length as) * (2 * real n * B / 2 ^ 24 + 2 / 2 ^ 150)"
  using assms(1,2)
proof (induction as rule: rev_induct)
  case Nil
  show ?case by simp
next
  case (snoc x xs)
  define c where "c = 2 * real n * B / 2 ^ 24 + 2 / 2 ^ 150"
  define k where "k = length xs"
  have x: "\<bar>x\<bar> \<le> B" and xs: "\<forall>a \<in> set xs. \<bar>a\<bar> \<le> B" and kn: "Suc k \<le> n"
    using snoc.prems by (simp_all add: k_def)
  from snoc.IH [OF xs] kn obtain S' where
    S': "foldl fadd (Fin 0) (map Fin xs) = Fin S'" and e': "\<bar>S' - sum_list xs\<bar> \<le> real k * c"
    by (auto simp add: k_def c_def)
  have B0: "0 \<le> B" using x by linarith
  have nB: "real n * B \<le> 2 ^ 23 * 2 ^ 100"
    using assms(3,4) B0 by (intro mult_mono) simp_all
  have c0: "0 \<le> c"
    using B0 by (simp add: c_def)
  have cB: "c \<le> B + 1"
  proof -
    have "2 * real n * B / 2 ^ 24 \<le> 2 * 2 ^ 23 * B / 2 ^ 24"
      using assms(3) B0 by (intro divide_right_mono mult_right_mono mult_left_mono) simp_all
    then show ?thesis by (simp add: c_def)
  qed
  have T': "\<bar>sum_list xs\<bar> \<le> real k * B"
    using sum_list_abs_bound [OF xs] by (simp add: k_def)
  have kB: "real (Suc k) * B \<le> real n * B"
    using kn B0 by (intro mult_right_mono) simp_all
  have kc: "real k * c \<le> real n * c"
    using kn c0 by (intro mult_right_mono) simp_all
  have y: "\<bar>S' + x\<bar> \<le> real n * B + real n * c"
  proof -
    have "\<bar>S' + x\<bar> \<le> \<bar>S' - sum_list xs\<bar> + \<bar>sum_list xs\<bar> + \<bar>x\<bar>" by simp
    also have "\<dots> \<le> real k * c + real k * B + B"
      using e' T' x by simp
    also have "\<dots> = real k * c + real (Suc k) * B"
      by (simp add: algebra_simps)
    also have "\<dots> \<le> real n * c + real n * B"
      using kB kc by simp
    finally show ?thesis by simp
  qed
  have nc: "real n * c \<le> 2 ^ 23 * (2 ^ 100 + 1)"
  proof -
    have "real n * c \<le> 2 ^ 23 * c"
      using assms(3) c0 by (intro mult_right_mono) simp_all
    also have "\<dots> \<le> 2 ^ 23 * (B + 1)"
      using cB by simp
    also have "\<dots> \<le> 2 ^ 23 * (2 ^ 100 + 1)"
      using assms(4) by simp
    finally show ?thesis .
  qed
  have "\<bar>S' + x\<bar> \<le> 2 ^ 127"
    using y nB nc by simp
  from round32_error [OF this] obtain S where
    S: "round32 (S' + x) = Fin S" and e: "\<bar>S - (S' + x)\<bar> \<le> \<bar>S' + x\<bar> / 2 ^ 24 + 1 / 2 ^ 150"
    by blast
  have half: "real n * c / 2 ^ 24 \<le> c / 2"
  proof -
    have "real n * c \<le> 2 ^ 23 * c"
      using assms(3) c0 by (intro mult_right_mono) simp_all
    then have "real n * c / 2 ^ 24 \<le> 2 ^ 23 * c / 2 ^ 24"
      by (intro divide_right_mono) simp_all
    then show ?thesis by simp
  qed
  have "\<bar>S' + x\<bar> / 2 ^ 24 \<le> (real n * B + real n * c) / 2 ^ 24"
    using y by (intro divide_right_mono) simp_all
  also have "\<dots> = real n * B / 2 ^ 24 + real n * c / 2 ^ 24"
    by (simp add: add_divide_distrib)
  also have "\<dots> \<le> real n * B / 2 ^ 24 + c / 2"
    using half by simp
  finally have u: "\<bar>S' + x\<bar> / 2 ^ 24 \<le> real n * B / 2 ^ 24 + c / 2" .
  have cc: "real n * B / 2 ^ 24 + 1 / 2 ^ 150 = c / 2"
    by (simp add: c_def)
  have "\<bar>S - sum_list (xs @ [x])\<bar> \<le> \<bar>S - (S' + x)\<bar> + \<bar>S' - sum_list xs\<bar>"
    by simp
  also have "\<dots> \<le> (real n * B / 2 ^ 24 + c / 2 + 1 / 2 ^ 150) + real k * c"
    using e u e' by simp
  also have "\<dots> = real (Suc k) * c"
    using cc by (simp add: algebra_simps)
  finally have "\<bar>S - sum_list (xs @ [x])\<bar> \<le> real (length (xs @ [x])) * c"
    by (simp add: k_def)
  moreover have "foldl fadd (Fin 0) (map Fin (xs @ [x])) = Fin S"
    by (simp add: S' S)
  ultimately show ?case
    unfolding c_def by blast
qed


lemma float_mean_error:
  assumes "\<forall>a \<in> set as. \<bar>a\<bar> \<le> B" and "4000 < length as" and "length as \<le> 2 ^ 23"
    and "B \<le> 2 ^ 100"
  shows "\<exists>m. fdiv (foldl fadd (Fin 0) (map Fin as)) (round32 (real (length as))) = Fin m \<and>
     \<bar>m - sum_list as / real (length as)\<bar> \<le>
       (2 * real (length as) + 2) * B / 2 ^ 24 + 1 / 2 ^ 148"
proof -
  define n where "n = length as"
  define c where "c = 2 * real n * B / 2 ^ 24 + 2 / 2 ^ 150"
  have n: "4000 < n" "n \<le> 2 ^ 23" using assms(2,3) by (simp_all add: n_def)
  have rn: "real n \<le> 2 ^ 23"
  proof -
    have "real n \<le> real ((2::nat) ^ 23)"
      using n(2) by (simp only: of_nat_le_iff)
    then show ?thesis by simp
  qed
  have n0: "0 < real n" using n(1) by simp
  from float_sum_error [OF assms(1) order_refl _ assms(4)] rn obtain S where
    S: "foldl fadd (Fin 0) (map Fin as) = Fin S" and e: "\<bar>S - sum_list as\<bar> \<le> real n * c"
    by (auto simp add: n_def c_def)
  have "as \<noteq> []" using assms(2) by auto
  then obtain a where "a \<in> set as" by (cases as) auto
  with assms(1) have B0: "0 \<le> B" by fastforce
  have c0: "0 \<le> c" using B0 by (simp add: c_def)
  have cB: "c \<le> B + 2 / 2 ^ 150"
  proof -
    have "2 * real n * B / 2 ^ 24 \<le> 2 * 2 ^ 23 * B / 2 ^ 24"
      using rn B0 by (intro divide_right_mono mult_right_mono mult_left_mono) simp_all
    then show ?thesis by (simp add: c_def)
  qed
  have exact: "round32 (real n) = Fin (real n)"
    using round32_exact [of "int n" 0] n(2) by simp
  have T: "\<bar>sum_list as / real n\<bar> \<le> B"
  proof -
    have "\<bar>sum_list as\<bar> \<le> real n * B"
      using sum_list_abs_bound [OF assms(1)] by (simp add: n_def)
    then show ?thesis using n0 by (simp add: field_simps)
  qed
  have tri: "\<bar>a\<bar> \<le> \<bar>a - b\<bar> + \<bar>b\<bar>" for a b :: real
    by simp
  have tri3: "\<bar>a - d\<bar> \<le> \<bar>a - b\<bar> + \<bar>b - d\<bar>" for a b d :: real
    by simp
  have d: "\<bar>S / real n - sum_list as / real n\<bar> \<le> c"
  proof -
    have "\<bar>S / real n - sum_list as / real n\<bar> = \<bar>S - sum_list as\<bar> / real n"
      using n0 by (simp add: diff_divide_distrib [symmetric])
    also have "\<dots> \<le> real n * c / real n"
      using e n0 by (intro divide_right_mono) simp_all
    finally show ?thesis using n0 by simp
  qed
  have q: "\<bar>S / real n\<bar> \<le> B + c"
  proof -
    have "\<bar>S / real n\<bar> \<le> \<bar>S / real n - sum_list as / real n\<bar> + \<bar>sum_list as / real n\<bar>"
      by (rule tri)
    also have "\<dots> \<le> c + B"
      using d T by (rule add_mono)
    finally show ?thesis by simp
  qed
  have "\<bar>S / real n\<bar> \<le> 2 ^ 127"
    using q cB assms(4) by simp
  from round32_error [OF this] obtain m where
    m: "round32 (S / real n) = Fin m"
    and em: "\<bar>m - S / real n\<bar> \<le> \<bar>S / real n\<bar> / 2 ^ 24 + 1 / 2 ^ 150"
    by blast
  have "\<bar>S / real n\<bar> / 2 ^ 24 \<le> (B + c) / 2 ^ 24"
    using q by (intro divide_right_mono) simp_all
  also have "\<dots> \<le> (B + (B + 2 / 2 ^ 150)) / 2 ^ 24"
    using cB by (intro divide_right_mono) simp_all
  also have "\<dots> \<le> 2 * B / 2 ^ 24 + 1 / 2 ^ 150"
    by simp
  finally have u: "\<bar>S / real n\<bar> / 2 ^ 24 \<le> 2 * B / 2 ^ 24 + 1 / 2 ^ 150" .
  have "\<bar>m - sum_list as / real n\<bar> \<le>
      \<bar>m - S / real n\<bar> + \<bar>S / real n - sum_list as / real n\<bar>"
    by (rule tri3)
  also have "\<dots> \<le> (2 * B / 2 ^ 24 + 1 / 2 ^ 150 + 1 / 2 ^ 150) + c"
    using em u d by linarith
  also have "\<dots> = (2 * real n + 2) * B / 2 ^ 24 + 1 / 2 ^ 148"
    by (simp add: c_def algebra_simps)
  finally have "\<bar>m - sum_list as / real n\<bar> \<le> (2 * real n + 2) * B / 2 ^ 24 + 1 / 2 ^ 148" .
  moreover have "fdiv (foldl fadd (Fin 0) (map Fin as)) (round32 (real n)) = Fin m"
    using n0 by (simp add: S exact m)
  ultimately show ?thesis
    unfolding n_def by blast
qed

lemma in_box_x_bound: "in_box s p \<Longrightarrow> \<bar>val (px p)\<bar> \<le> max \<bar>min_x s\<bar> \<bar>max_x s\<bar>"
  by (cases "px p") (auto simp add: in_box_def)

lemma in_box_y_bound: "in_box s p \<Longrightarrow> \<bar>val (py p)\<bar> \<le> max \<bar>min_y s\<bar> \<bar>max_y s\<bar>"
  by (cases "py p") (auto simp add: in_box_def)

lemma in_box_map_px: "map px (filter (in_box s) pts) = map Fin (map (\<lambda>p. val (px p)) (filter (in_box s) pts))"
  using in_box_Fin by (induction pts) auto

lemma in_box_map_py: "map py (filter (in_box s) pts) = map Fin (map (\<lambda>p. val (py p)) (filter (in_box s) pts))"
  using in_box_Fin by (induction pts) auto

text \<open>
  Claim C5, as the code has it. If at most 4000 points pass the box test, no centroid is
  found. If more than 4000 pass, one is found. Its \<open>x\<close> and \<open>y\<close> are single-precision
  results: the passing points' x (and y) are added up in float in the order of the
  cloud, rounded to nearest after every addition, and the sum is divided in float by the
  count. For at most \<open>2^23\<close> passing points and box bounds of magnitude at most
  \<open>2^100\<close> they are numbers within \<open>(2n + 2) B / 2^24 + 2^-148\<close> of the arithmetic
  mean, \<open>n\<close> being the count and \<open>B\<close> the larger magnitude of the two box bounds of
  the coordinate. For \<open>max_z_\<close> at most \<open>1e6\<close>, \<open>z\<close> is the least z of a passing
  point: the z of one of them, with none below it.
\<close>

theorem box_centroid_spec:
  "(length (filter (in_box s) pts) \<le> 4000 \<longrightarrow> \<not> found (box_centroid s pts)) \<and>
   (4000 < length (filter (in_box s) pts) \<longrightarrow>
      found (box_centroid s pts) \<and>
      cx (box_centroid s pts) =
        fdiv (foldl fadd (Fin 0) (map px (filter (in_box s) pts)))
          (round32 (real (length (filter (in_box s) pts)))) \<and>
      cy (box_centroid s pts) =
        fdiv (foldl fadd (Fin 0) (map py (filter (in_box s) pts)))
          (round32 (real (length (filter (in_box s) pts)))) \<and>
      (length (filter (in_box s) pts) \<le> 2 ^ 23 \<and> max \<bar>min_x s\<bar> \<bar>max_x s\<bar> \<le> 2 ^ 100 \<longrightarrow>
         cx (box_centroid s pts) = Fin (val (cx (box_centroid s pts))) \<and>
         \<bar>val (cx (box_centroid s pts)) -
            sum_list (map (\<lambda>p. val (px p)) (filter (in_box s) pts)) /
              real (length (filter (in_box s) pts))\<bar> \<le>
           (2 * real (length (filter (in_box s) pts)) + 2) * max \<bar>min_x s\<bar> \<bar>max_x s\<bar> / 2 ^ 24 +
           1 / 2 ^ 148) \<and>
      (length (filter (in_box s) pts) \<le> 2 ^ 23 \<and> max \<bar>min_y s\<bar> \<bar>max_y s\<bar> \<le> 2 ^ 100 \<longrightarrow>
         cy (box_centroid s pts) = Fin (val (cy (box_centroid s pts))) \<and>
         \<bar>val (cy (box_centroid s pts)) -
            sum_list (map (\<lambda>p. val (py p)) (filter (in_box s) pts)) /
              real (length (filter (in_box s) pts))\<bar> \<le>
           (2 * real (length (filter (in_box s) pts)) + 2) * max \<bar>min_y s\<bar> \<bar>max_y s\<bar> / 2 ^ 24 +
           1 / 2 ^ 148) \<and>
      (max_z s \<le> 1000000 \<longrightarrow>
         z_min (box_centroid s pts) \<in> set (map pz (filter (in_box s) pts)) \<and>
         (\<forall>p \<in> set (filter (in_box s) pts). \<not> fless (pz p) (z_min (box_centroid s pts)))))"
proof -
  let ?P = "filter (in_box s) pts"
  let ?Z = "foldl fmin (Fin 1000000) (map pz ?P)"
  let ?xs = "map (\<lambda>p. val (px p)) ?P"
  let ?ys = "map (\<lambda>p. val (py p)) ?P"
  have z: "z_min (box_centroid s pts) = ?Z"
    by (simp add: box_centroid_def accumulate_eq Let_def)
  have nn: "\<forall>y \<in> set (map pz ?P). \<not> isnan y"
    using in_box_Fin by auto
  have lower: "\<not> fless (pz p) ?Z" if "p \<in> set ?P" for p
    using that by (intro foldl_fmin_lower nn) simp_all
  have member: "?Z \<in> set (map pz ?P)" if "4000 < length ?P" and "max_z s \<le> 1000000"
  proof -
    from that(1) obtain p where p: "p \<in> set ?P"
      by (cases ?P) auto
    then have "in_box s p" by simp
    then have "fless (pz p) (Fin 1000000)"
      using that(2) by (intro fless_Fin_mono [OF in_box_below_max_z])
    with lower [OF p] have "?Z \<noteq> Fin 1000000" by auto
    with foldl_fmin_cases [of "Fin 1000000" "map pz ?P"] show ?thesis by simp
  qed
  have cxe: "cx (box_centroid s pts) =
      fdiv (foldl fadd (Fin 0) (map px ?P)) (round32 (real (length ?P)))"
    and cye: "cy (box_centroid s pts) =
      fdiv (foldl fadd (Fin 0) (map py ?P)) (round32 (real (length ?P)))"
    if "4000 < length ?P"
    using that by (simp_all add: box_centroid_def accumulate_eq Let_def del: fdiv.simps)
  have xb: "cx (box_centroid s pts) = Fin (val (cx (box_centroid s pts))) \<and>
      \<bar>val (cx (box_centroid s pts)) - sum_list ?xs / real (length ?P)\<bar> \<le>
        (2 * real (length ?P) + 2) * max \<bar>min_x s\<bar> \<bar>max_x s\<bar> / 2 ^ 24 + 1 / 2 ^ 148"
    if "4000 < length ?P" and "length ?P \<le> 2 ^ 23" and "max \<bar>min_x s\<bar> \<bar>max_x s\<bar> \<le> 2 ^ 100"
  proof -
    have "\<forall>a \<in> set ?xs. \<bar>a\<bar> \<le> max \<bar>min_x s\<bar> \<bar>max_x s\<bar>"
      using in_box_x_bound by auto
    from float_mean_error [OF this _ _ that(3)] that(1,2) obtain m where
      "fdiv (foldl fadd (Fin 0) (map Fin ?xs)) (round32 (real (length ?P))) = Fin m"
      and "\<bar>m - sum_list ?xs / real (length ?P)\<bar> \<le>
        (2 * real (length ?P) + 2) * max \<bar>min_x s\<bar> \<bar>max_x s\<bar> / 2 ^ 24 + 1 / 2 ^ 148"
      by auto
    then show ?thesis
      unfolding cxe [OF that(1)] in_box_map_px by simp
  qed
  have yb: "cy (box_centroid s pts) = Fin (val (cy (box_centroid s pts))) \<and>
      \<bar>val (cy (box_centroid s pts)) - sum_list ?ys / real (length ?P)\<bar> \<le>
        (2 * real (length ?P) + 2) * max \<bar>min_y s\<bar> \<bar>max_y s\<bar> / 2 ^ 24 + 1 / 2 ^ 148"
    if "4000 < length ?P" and "length ?P \<le> 2 ^ 23" and "max \<bar>min_y s\<bar> \<bar>max_y s\<bar> \<le> 2 ^ 100"
  proof -
    have "\<forall>a \<in> set ?ys. \<bar>a\<bar> \<le> max \<bar>min_y s\<bar> \<bar>max_y s\<bar>"
      using in_box_y_bound by auto
    from float_mean_error [OF this _ _ that(3)] that(1,2) obtain m where
      "fdiv (foldl fadd (Fin 0) (map Fin ?ys)) (round32 (real (length ?P))) = Fin m"
      and "\<bar>m - sum_list ?ys / real (length ?P)\<bar> \<le>
        (2 * real (length ?P) + 2) * max \<bar>min_y s\<bar> \<bar>max_y s\<bar> / 2 ^ 24 + 1 / 2 ^ 148"
      by auto
    then show ?thesis
      unfolding cye [OF that(1)] in_box_map_py by simp
  qed
  have f: "found (box_centroid s pts) \<longleftrightarrow> 4000 < length ?P"
    by (simp add: box_centroid_def accumulate_eq Let_def)
  show ?thesis
  proof (intro conjI impI, goal_cases)
    case 1
    then show ?case by (simp add: f)
  next
    case 2
    then show ?case by (simp add: f)
  next
    case 3
    then show ?case by (rule cxe)
  next
    case 4
    then show ?case by (rule cye)
  next
    case 5
    with xb show ?case by blast
  next
    case 6
    with xb show ?case by blast
  next
    case 7
    with yb show ?case by blast
  next
    case 8
    with yb show ?case by blast
  next
    case 9
    with member show ?case by (simp only: z)
  next
    case 10
    with lower show ?case by (simp only: z) blast
  qed
qed

lemma quarter_box: "in_box (init_follower en) \<lparr>px = Fin (1 / 8), py = Fin (- (1 / 4)), pz = Fin (3 / 4)\<rparr>"
  by (simp add: in_box_def init_follower_def)

theorem box_centroid_spec_witness:
  "found (box_centroid (init_follower True)
      (replicate 4001 \<lparr>px = Fin (1 / 8), py = Fin (- (1 / 4)), pz = Fin (3 / 4)\<rparr>)) \<and>
   cx (box_centroid (init_follower True)
      (replicate 4001 \<lparr>px = Fin (1 / 8), py = Fin (- (1 / 4)), pz = Fin (3 / 4)\<rparr>)) = Fin (1 / 8) \<and>
   z_min (box_centroid (init_follower True)
      (replicate 4001 \<lparr>px = Fin (1 / 8), py = Fin (- (1 / 4)), pz = Fin (3 / 4)\<rparr>)) = Fin (3 / 4) \<and>
   \<not> found (box_centroid (init_follower True)
      (replicate 4000 \<lparr>px = Fin (1 / 8), py = Fin (- (1 / 4)), pz = Fin (3 / 4)\<rparr>))"
proof -
  let ?s = "init_follower True"
  let ?p = "\<lparr>px = Fin (1 / 8), py = Fin (- (1 / 4)), pz = Fin (3 / 4)\<rparr>"
  have f: "filter (in_box ?s) (replicate n ?p) = replicate n ?p" for n
    using quarter_box [of True] by simp
  have m: "max_z ?s \<le> 1000000"
    by (simp add: init_follower_def)
  have x: "round32 (real k * (1 / 8)) = Fin (real k * (1 / 8))" if "k \<le> 4001" for k
    using round32_multiple [of 1 4001 k "- 3"] that by simp
  have sx: "foldl fadd (Fin 0) (replicate 4001 (Fin (1 / 8))) = Fin (4001 / 8)"
    using foldl_fadd_replicate [of 0 4001 "1 / 8"] x by simp
  have rn: "round32 4001 = Fin 4001"
    using round32_exact [of 4001 0] by simp
  have dx: "fdiv (Fin (4001 / 8)) (Fin 4001) = Fin (1 / 8)"
    using x [of 1] by simp
  note spec = box_centroid_spec [of ?s "replicate 4001 ?p", unfolded f]
  have "found (box_centroid ?s (replicate 4001 ?p))"
    using spec by simp
  moreover have "cx (box_centroid ?s (replicate 4001 ?p)) = Fin (1 / 8)"
    using spec sx rn dx by (simp del: fdiv.simps)
  moreover have "z_min (box_centroid ?s (replicate 4001 ?p)) = Fin (3 / 4)"
    using spec m by simp
  moreover have "\<not> found (box_centroid ?s (replicate 4000 ?p))"
    using box_centroid_spec [of ?s "replicate 4000 ?p", unfolded f] by simp
  ultimately show ?thesis by simp
qed

text \<open>
  One point at \<open>x = 1/8\<close> followed by 4000 points at \<open>x = 2^-28\<close>, all in the default
  box: every later addition rounds back to \<open>1/8\<close>, so the code's \<open>x\<close> is \<open>(1/8) / 4001\<close>
  rounded, which is below the arithmetic mean of the 4001 values. And with \<open>max_z_\<close>
  above \<open>1e6\<close>, 4001 points at depth \<open>1.5e6\<close> all pass and the code's \<open>z\<close> is \<open>1e6\<close>,
  which is the z of none of them.
\<close>

lemma fadd_absorbed: "fadd (Fin (1 / 8)) (Fin (1 / 2 ^ 28)) = Fin (1 / 8)"
proof -
  have b: "binade \<bar>1 / 8 + 1 / 2 ^ 28 :: real\<bar> = - 3"
    by (rule binade_eq) simp_all
  show ?thesis
    unfolding fadd.simps round32_def Let_def b by (simp add: rne_def)
qed

lemma foldl_fadd_absorbed:
  "foldl fadd (Fin (1 / 8)) (replicate n (Fin (1 / 2 ^ 28))) = Fin (1 / 8)"
  by (induction n) (simp_all only: replicate.simps foldl.simps fadd_absorbed)

lemma eighth_over_4001: "fdiv (Fin (1 / 8)) (Fin 4001) = Fin (2146947 / 68719476736)"
proof -
  have b: "binade \<bar>1 / 8 / 4001 :: real\<bar> = - 15"
    by (rule binade_eq) simp_all
  have "round32 (1 / 8 / 4001) = Fin (2146947 / 68719476736)"
    unfolding round32_def Let_def b by (simp add: rne_def)
  then show ?thesis by simp
qed

theorem float_mean_counterexample:
  "length (filter (in_box (init_follower True))
      (\<lparr>px = Fin (1 / 8), py = Fin (- (1 / 4)), pz = Fin (3 / 4)\<rparr> #
       replicate 4000 \<lparr>px = Fin (1 / 2 ^ 28), py = Fin (- (1 / 4)), pz = Fin (3 / 4)\<rparr>)) = 4001 \<and>
   cx (box_centroid (init_follower True)
      (\<lparr>px = Fin (1 / 8), py = Fin (- (1 / 4)), pz = Fin (3 / 4)\<rparr> #
       replicate 4000 \<lparr>px = Fin (1 / 2 ^ 28), py = Fin (- (1 / 4)), pz = Fin (3 / 4)\<rparr>)) =
     Fin (2146947 / 68719476736) \<and>
   sum_list (map (\<lambda>p. val (px p))
      (\<lparr>px = Fin (1 / 8), py = Fin (- (1 / 4)), pz = Fin (3 / 4)\<rparr> #
       replicate 4000 \<lparr>px = Fin (1 / 2 ^ 28), py = Fin (- (1 / 4)), pz = Fin (3 / 4)\<rparr>)) / 4001 =
     1048701 / 33562820608 \<and>
   (2146947 / 68719476736 :: real) < 1048701 / 33562820608 \<and>
   length (filter (in_box ((init_follower True)\<lparr>max_z := 2000000\<rparr>))
      (replicate 4001 \<lparr>px = Fin 0, py = Fin (- (1 / 4)), pz = Fin 1500000\<rparr>)) = 4001 \<and>
   z_min (box_centroid ((init_follower True)\<lparr>max_z := 2000000\<rparr>)
      (replicate 4001 \<lparr>px = Fin 0, py = Fin (- (1 / 4)), pz = Fin 1500000\<rparr>)) = Fin 1000000"
proof -
  let ?s = "init_follower True"
  let ?p0 = "\<lparr>px = Fin (1 / 8), py = Fin (- (1 / 4)), pz = Fin (3 / 4)\<rparr>"
  let ?p1 = "\<lparr>px = Fin (1 / 2 ^ 28), py = Fin (- (1 / 4)), pz = Fin (3 / 4)\<rparr>"
  let ?pts = "?p0 # replicate 4000 ?p1"
  have b1: "in_box ?s ?p1"
    by (simp add: in_box_def init_follower_def)
  have f: "filter (in_box ?s) ?pts = ?pts"
    using quarter_box [of True] b1 by simp
  have len: "length (filter (in_box ?s) ?pts) = 4001"
    unfolding f by simp
  have first: "fadd (Fin 0) (Fin (1 / 8)) = Fin (1 / 8)"
    using round32_exact [of 1 "- 3"] by simp
  have sx: "foldl fadd (Fin 0) (map px ?pts) = Fin (1 / 8)"
    by (simp only: list.map foldl.simps map_replicate point.simps first foldl_fadd_absorbed)
  have rn: "round32 (real (4001::nat)) = Fin 4001"
    using round32_exact [of 4001 0] by simp
  have "cx (box_centroid ?s ?pts) =
      fdiv (foldl fadd (Fin 0) (map px (filter (in_box ?s) ?pts)))
        (round32 (real (length (filter (in_box ?s) ?pts))))"
    using len by (simp add: box_centroid_def accumulate_eq Let_def del: fdiv.simps filter.simps)
  also have "\<dots> = fdiv (Fin (1 / 8)) (Fin 4001)"
    unfolding len unfolding f sx rn ..
  finally have c: "cx (box_centroid ?s ?pts) = Fin (2146947 / 68719476736)"
    by (simp only: eighth_over_4001)
  have mean: "sum_list (map (\<lambda>p. val (px p)) ?pts) / 4001 = 1048701 / 33562820608"
    by (simp add: sum_list_replicate)
  let ?t = "(init_follower True)\<lparr>max_z := 2000000\<rparr>"
  let ?q = "\<lparr>px = Fin 0, py = Fin (- (1 / 4)), pz = Fin 1500000\<rparr>"
  have bq: "in_box ?t ?q"
    by (simp add: in_box_def init_follower_def)
  have fq: "filter (in_box ?t) (replicate 4001 ?q) = replicate 4001 ?q"
    using bq by simp
  have "foldl fmin (fmin (Fin 1000000) (Fin 1500000)) (replicate 4001 (Fin 1500000)) =
      fmin (Fin 1000000) (Fin 1500000)"
    by (rule foldl_fmin_replicate)
  then have zq: "foldl fmin (Fin 1000000) (replicate 4001 (Fin 1500000)) = Fin 1000000"
    by (simp add: fmin_def)
  have z: "z_min (box_centroid ?t (replicate 4001 ?q)) = Fin 1000000"
    by (simp add: box_centroid_def accumulate_eq fq zq Let_def)
  have lq: "length (filter (in_box ?t) (replicate 4001 ?q)) = 4001"
    unfolding fq by simp
  from len c mean z lq show ?thesis
    by (simp del: filter.simps)
qed

text \<open>
  Claim C6. A point with a NaN coordinate contributes nothing: the loop body leaves the
  two sums, the least z and the count as they were, so dropping the point from the cloud
  does not change the result of the loop.
\<close>

theorem nan_point_ignored:
  assumes "isnan (px pt) \<or> isnan (py pt) \<or> isnan (pz pt)"
  shows "point_step s a pt = a \<and>
         accumulate s (pts1 @ pt # pts2) = accumulate s (pts1 @ pts2)"
proof -
  have "\<not> in_box s pt"
    using assms by (rule nan_not_in_box)
  then have "point_step s a pt = a" for a
    by (simp add: point_step_def)
  then show ?thesis by (simp add: accumulate_def)
qed

theorem nan_point_ignored_witness:
  "point_step (init_follower True) totals0 \<lparr>px = Fin 0, py = NaN, pz = Fin 0.5\<rparr> = totals0 \<and>
   accumulate (init_follower True)
     [\<lparr>px = Fin 0, py = Fin (- 0.3), pz = Fin 0.5\<rparr>, \<lparr>px = Fin 0, py = NaN, pz = Fin 0.5\<rparr>] =
   accumulate (init_follower True) [\<lparr>px = Fin 0, py = Fin (- 0.3), pz = Fin 0.5\<rparr>]"
  using nan_point_ignored [of "\<lparr>px = Fin 0, py = NaN, pz = Fin 0.5\<rparr>" "init_follower True"
      totals0 "[\<lparr>px = Fin 0, py = Fin (- 0.3), pz = Fin 0.5\<rparr>]" "[]"]
  by simp

text \<open>
  Claim C7. The box test negates y: a point with numeric coordinates passes iff
  \<open>-y > min_y\<close>, \<open>-y < max_y\<close>, \<open>x < max_x\<close>, \<open>x > min_x\<close> and \<open>z < max_z\<close>. With
  \<open>min_y = 0.1\<close> and \<open>max_y = 0.5\<close> a point with \<open>y = -0.3\<close> passes the y-test (it is in
  the box iff its x and z pass), and a point with \<open>y = 0.3\<close> is never in the box. A point
  is counted exactly when it passes.
\<close>

theorem in_box_sign_rule:
  "in_box s \<lparr>px = Fin a, py = Fin b, pz = Fin c\<rparr> =
     (- b > min_y s \<and> - b < max_y s \<and> a < max_x s \<and> a > min_x s \<and> c < max_z s) \<and>
   in_box (s\<lparr>min_y := 0.1, max_y := 0.5\<rparr>) \<lparr>px = Fin a, py = Fin (- 0.3), pz = Fin c\<rparr> =
     (a < max_x s \<and> a > min_x s \<and> c < max_z s) \<and>
   \<not> in_box (s\<lparr>min_y := 0.1, max_y := 0.5\<rparr>) \<lparr>px = Fin a, py = Fin 0.3, pz = Fin c\<rparr> \<and>
   num (point_step s \<lparr>sum_x = Fin u, sum_y = Fin v, low_z = Fin w, num = k\<rparr> pt) =
     (if in_box s pt then k + 1 else k)"
  by (simp add: in_box_def point_step_def)

subsection \<open>The recovery loop\<close>

lemma recovery_loop_idle: "recovery_loop ok a l budget k cnt False out = (False, out)"
  by (simp add: recovery_loop.simps)

lemma recover_idle: "\<not> change_direction s \<Longrightarrow> recover s f a l budget = (s, [])"
  by (simp add: recover_def recovery_loop_idle)

lemma recovery_loop_runs:
  assumes "\<forall>k. ok k" and "cnt \<le> budget"
  shows "recovery_loop ok a l budget k cnt True out =
     (False, out @ replicate (Suc budget - cnt) \<lparr>linear_x = l, angular_z = a\<rparr>)"
  using assms(2)
proof (induction "budget - cnt" arbitrary: cnt k out)
  case 0
  then have "cnt = budget" by simp
  then show ?case
    using assms(1)
    by (subst recovery_loop.simps) (simp add: recovery_loop_idle new_twist_def Suc_diff_le)
next
  case (Suc d)
  then have lt: "cnt < budget" by simp
  have "Suc d = budget - cnt" by fact
  then have d: "d = budget - Suc cnt" by simp
  have r: "Suc budget - cnt = Suc (Suc budget - Suc cnt)"
    using lt by simp
  show ?case
    using assms(1) lt Suc.hyps(1) [OF d, of "k + 1"]
    by (subst recovery_loop.simps) (simp add: new_twist_def r)
qed

lemma recover_runs:
  assumes "\<forall>k. ros_ok f k" and "change_direction s"
  shows "recover s f a l budget =
     (s\<lparr>change_direction := False\<rparr>, replicate (Suc budget) \<lparr>linear_x = l, angular_z = a\<rparr>)"
  using assms by (simp add: recover_def recovery_loop_runs del: replicate.simps)


lemma cloudcb_left:
  "bumper_left_pressed s \<Longrightarrow>
   cloudcb s f =
     (if found (box_centroid s (points f)) \<or> enabled s
      then recover s f (- 0.4) (- 0.2) 15 else (s, []))"
  by (simp add: cloudcb_def Let_def)

lemma cloudcb_center:
  "\<not> bumper_left_pressed s \<Longrightarrow> bumper_center_pressed s \<Longrightarrow>
   cloudcb s f =
     (if found (box_centroid s (points f))
      then (if approaching s (box_centroid s (points f))
            then recover s f (- 0.5) (- 0.2) 20 else recover s f (- 0.4) (- 0.2) 20)
      else if enabled s then recover s f (- 0.5) (- 0.2) 20 else (s, []))"
  by (simp add: cloudcb_def Let_def approaching_def)

lemma cloudcb_right:
  "\<not> bumper_left_pressed s \<Longrightarrow> \<not> bumper_center_pressed s \<Longrightarrow> bumper_right_pressed s \<Longrightarrow>
   cloudcb s f =
     (if found (box_centroid s (points f)) \<or> enabled s
      then recover s f 0.4 (- 0.2) 15 else (s, []))"
  by (simp add: cloudcb_def Let_def)

lemma cloudcb_free:
  "first_pressed s = None \<Longrightarrow>
   cloudcb s f =
     (s, if found (box_centroid s (points f))
         then [if approaching s (box_centroid s (points f))
               then approach_cmd False (change_direction s) (cx (box_centroid s (points f)))
                      (rand_val f)
               else hold_cmd False (cx (box_centroid s (points f))) (rand_val f)]
         else if enabled s then [new_twist\<lparr>linear_x := 0.2\<rparr>] else [])"
  by (simp add: cloudcb_def Let_def approaching_def first_pressed_def split: if_splits)

lemma first_pressed_cases:
  "first_pressed s = Some LEFT \<longleftrightarrow> bumper_left_pressed s"
  "first_pressed s = Some CENTER \<longleftrightarrow> \<not> bumper_left_pressed s \<and> bumper_center_pressed s"
  "first_pressed s = Some RIGHT \<longleftrightarrow>
     \<not> bumper_left_pressed s \<and> \<not> bumper_center_pressed s \<and> bumper_right_pressed s"
  by (simp_all add: first_pressed_def)

lemma approach_cmd_in_band:
  "- 0.2 \<le> x \<Longrightarrow> x \<le> 0.2 \<Longrightarrow>
   approach_cmd False cd (Fin x) r = \<lparr>linear_x = 0.2, angular_z = (if cd then 0 else - 0.3)\<rparr>"
  by (simp add: approach_cmd_def new_twist_def)

lemma hold_cmd_in_band:
  "- 0.2 \<le> x \<Longrightarrow> x \<le> 0.2 \<Longrightarrow>
   hold_cmd False (Fin x) r = \<lparr>linear_x = 0, angular_z = - 0.3\<rparr>"
  by (simp add: hold_cmd_def new_twist_def)

lemma approach_cmd_forward: "linear_x (approach_cmd d cd x r) = 0.2"
  by (simp add: approach_cmd_def new_twist_def Let_def)

lemma hold_cmd_still: "linear_x (hold_cmd d x r) = 0"
  by (simp add: hold_cmd_def new_twist_def Let_def)

text \<open>
  The centroid of 4001 copies of the point \<open>(m/8, -1/4, c)\<close>: the sums are multiples
  of \<open>1/8\<close> and \<open>1/4\<close> with few digits, so no addition and no division rounds.
\<close>

lemma centroid_of_cloud:
  assumes "in_box s \<lparr>px = Fin (of_int m / 8), py = Fin (- (1 / 4)), pz = Fin c\<rparr>"
    and "\<bar>m\<bar> \<le> 4" and "c \<le> 1000000"
  shows "box_centroid s (points (cloud_of 4001 (of_int m / 8) (- (1 / 4)) c r)) =
     \<lparr>cx = Fin (of_int m / 8), cy = Fin (- (1 / 4)), z_min = Fin c, count = 4001, found = True\<rparr>"
proof -
  have z: "fmin (Fin 1000000) (Fin c) = Fin c"
    using assms(3) by (simp add: fmin_def)
  have "box_centroid s (replicate 4001 \<lparr>px = Fin (of_int m / 8), py = Fin (- (1 / 4)), pz = Fin c\<rparr>) =
      \<lparr>cx = Fin (of_int m / 8), cy = Fin (- (1 / 4)), z_min = fmin (Fin 1000000) (Fin c),
       count = 4001, found = True\<rparr>"
    using assms(1)
  proof (rule box_centroid_replicate)
    show "real_of_int m / 8 = of_int m * 2 powi (- 3)" by simp
    show "\<bar>m\<bar> * int 4001 < 2 ^ 24" using assms(2) by simp
    show "- (1 / 4) = real_of_int (- 1) * 2 powi (- 2)" by simp
  qed simp_all
  then show ?thesis
    by (simp only: cloud_of_def frame.simps z)
qed

subsection \<open>The bumper callback\<close>

text \<open>
  Claim C8. Recovery requests are edge-triggered. A Pressed event for a side whose flag
  is already set changes nothing and logs nothing. A Pressed event for a side whose flag
  is clear raises one request: it logs one line, sets the flag and sets
  \<open>change_direction_\<close>. A Released event raises nothing and clears the flag. Hence,
  from a state where the side is released, two Pressed events in a row raise one request,
  and Pressed, Released, Pressed raise two.
\<close>

theorem bumper_edge_triggered:
  "(pressed s b \<longrightarrow> bumperEventCB s (press b) = (s, [])) \<and>
   (\<not> pressed s b \<longrightarrow>
      length (snd (bumperEventCB s (press b))) = 1 \<and>
      pressed (fst (bumperEventCB s (press b))) b \<and>
      change_direction (fst (bumperEventCB s (press b)))) \<and>
   snd (bumperEventCB s (release b)) = [] \<and>
   \<not> pressed (fst (bumperEventCB s (release b))) b \<and>
   (\<not> pressed s b \<longrightarrow>
      length (snd (bumper_events s [press b, press b])) = 1 \<and>
      length (snd (bumper_events s [press b, release b, press b])) = 2)"
  by (cases b) (simp_all add: press_def release_def)

theorem bumper_edge_triggered_witness:
  "length (snd (bumper_events (init_follower True) [press LEFT, press LEFT])) = 1 \<and>
   length (snd (bumper_events (init_follower True) [press LEFT, release LEFT, press LEFT])) = 2 \<and>
   bumperEventCB (fst (bumperEventCB (init_follower True) (press LEFT))) (press LEFT) =
     (fst (bumperEventCB (init_follower True) (press LEFT)), [])"
  using bumper_edge_triggered [of "init_follower True" LEFT]
    bumper_edge_triggered [of "fst (bumperEventCB (init_follower True) (press LEFT))" LEFT]
  by (simp add: init_follower_def)

subsection \<open>The mode service\<close>

text \<open>
  Claim C9. A Stopped request while \<open>enabled_\<close> is true publishes exactly one all-zero
  command and clears \<open>enabled_\<close>; a Follow request while \<open>enabled_\<close> is false sets
  \<open>enabled_\<close> and publishes nothing; every call answers OK and returns true.
\<close>

theorem changeModeSrvCb_spec:
  "(enabled s \<longrightarrow>
      changeModeSrvCb s STOPPED =
        (s\<lparr>enabled := False\<rparr>, [\<lparr>linear_x = 0, angular_z = 0\<rparr>], OK, True)) \<and>
   (\<not> enabled s \<longrightarrow> changeModeSrvCb s FOLLOW = (s\<lparr>enabled := True\<rparr>, [], OK, True)) \<and>
   fst (snd (snd (changeModeSrvCb s r))) = OK \<and> snd (snd (snd (changeModeSrvCb s r)))"
  by (simp add: changeModeSrvCb_def new_twist_def)

theorem changeModeSrvCb_spec_witness:
  "changeModeSrvCb (init_follower True) STOPPED =
     (init_follower False, [\<lparr>linear_x = 0, angular_z = 0\<rparr>], OK, True) \<and>
   changeModeSrvCb (init_follower False) FOLLOW = (init_follower True, [], OK, True)"
  using changeModeSrvCb_spec [of "init_follower True" STOPPED]
    changeModeSrvCb_spec [of "init_follower False" FOLLOW]
  by (simp add: init_follower_def)

subsection \<open>A held bumper after the recovery\<close>

text \<open>
  Claim C10. On a frame where some bumper flag is set and \<open>change_direction_\<close> is
  false, \<open>cloudcb\<close> publishes no command at all and leaves the members as they are,
  whether or not a centroid is found.
\<close>

theorem held_bumper_silent:
  assumes "bumper_left_pressed s \<or> bumper_center_pressed s \<or> bumper_right_pressed s"
    and "\<not> change_direction s"
  shows "cloudcb s f = (s, [])"
  using assms by (auto simp add: cloudcb_def recover_idle Let_def)

theorem held_bumper_silent_witness:
  "cloudcb ((init_follower True)\<lparr>bumper_center_pressed := True\<rparr>)
     \<lparr>points = [], rand_val = 0, ros_ok = (\<lambda>k. True)\<rparr> =
   ((init_follower True)\<lparr>bumper_center_pressed := True\<rparr>, [])"
  using held_bumper_silent [of "(init_follower True)\<lparr>bumper_center_pressed := True\<rparr>"
      "\<lparr>points = [], rand_val = 0, ros_ok = (\<lambda>k. True)\<rparr>"]
  by (simp add: init_follower_def)

subsection \<open>The recovery manoeuvre\<close>

text \<open>
  Claim C1, as the code has it. On a frame that finds \<open>change_direction_\<close> set and a
  bumper flag set (the first set flag in the order left, center, right names the side),
  with a centroid found or \<open>enabled_\<close> true, and \<open>ros::ok()\<close> true throughout,
  \<open>cloudcb\<close> publishes inside that one call only the side's recovery command of the
  table, 16 times for left and right and 21 times for center (the loop stops once
  \<open>count > 15\<close>, \<open>count > 20\<close>), and no other command; then \<open>change_direction_\<close> is
  clear. The center side in the branch \<open>z - goal_z_ \<le> 0\<close> is left aside.
\<close>

theorem recovery_frame:
  assumes "change_direction s"
    and "first_pressed s = Some b"
    and "\<forall>k. ros_ok f k"
    and "found (box_centroid s (points f)) \<or> enabled s"
    and "\<not> (b = CENTER \<and> found (box_centroid s (points f)) \<and>
             \<not> approaching s (box_centroid s (points f)))"
  shows "cloudcb s f =
     (s\<lparr>change_direction := False\<rparr>, replicate (if b = CENTER then 21 else 16) (recovery_cmd b))"
proof (cases b)
  case LEFT
  with assms show ?thesis
    by (simp add: first_pressed_cases cloudcb_left recover_runs del: replicate.simps)
next
  case CENTER
  with assms show ?thesis
    by (auto simp add: first_pressed_cases cloudcb_center recover_runs simp del: replicate.simps)
next
  case RIGHT
  with assms show ?thesis
    by (simp add: first_pressed_cases cloudcb_right recover_runs del: replicate.simps)
qed

theorem recovery_frame_witness:
  "cloudcb ((init_follower True)\<lparr>bumper_left_pressed := True, change_direction := True\<rparr>) still =
     ((init_follower True)\<lparr>bumper_left_pressed := True, change_direction := False\<rparr>,
      replicate 16 \<lparr>linear_x = - 0.2, angular_z = - 0.4\<rparr>)"
  using recovery_frame [of "(init_follower True)\<lparr>bumper_left_pressed := True, change_direction := True\<rparr>"
      LEFT still]
  by (simp add: first_pressed_def still_def init_follower_def del: replicate.simps)

text \<open>
  After a press of the left bumper one frame publishes 16 recovery commands, not 15.
  After a press and a release of the left bumper the request is still active, and the
  frame publishes the straight crawl of the wanderer.
\<close>

theorem recovery_counterexample:
  "length (snd (cloudcb
      (fst (run (init_follower True) [Bumper (press LEFT)])) still)) = 16 \<and>
   change_direction (fst (run (init_follower True) [Bumper (press LEFT), Bumper (release LEFT)])) \<and>
   snd (cloudcb (fst (run (init_follower True) [Bumper (press LEFT), Bumper (release LEFT)]))
      still) = [\<lparr>linear_x = 0.2, angular_z = 0\<rparr>]"
  by (simp add: press_def release_def init_follower_def cloudcb_left cloudcb_free recover_runs
      first_pressed_def still_def box_centroid_empty new_twist_def del: replicate.simps)

text \<open>
  The recovery of the center side in the branch \<open>z - goal_z_ \<le> 0\<close> turns with
  \<open>-0.4\<close> (line 347), where the two other center loops (lines 259 and 445) have
  \<open>-0.5\<close>.
\<close>

lemma hold_center_turn:
  "cloudcb ((init_follower True)\<lparr>bumper_center_pressed := True, change_direction := True\<rparr>)
     (cloud_of 4001 (1 / 8) (- (1 / 4)) (1 / 2) 0) =
   ((init_follower True)\<lparr>bumper_center_pressed := True, change_direction := False\<rparr>,
    replicate 21 \<lparr>linear_x = - 0.2, angular_z = - 0.4\<rparr>)"
proof -
  let ?s = "(init_follower True)\<lparr>bumper_center_pressed := True, change_direction := True\<rparr>"
  let ?f = "cloud_of 4001 (1 / 8) (- (1 / 4)) (1 / 2) 0"
  have c: "box_centroid ?s (points ?f) =
      \<lparr>cx = Fin (1 / 8), cy = Fin (- (1 / 4)), z_min = Fin (1 / 2), count = 4001, found = True\<rparr>"
    using centroid_of_cloud [of ?s 1 "1 / 2" 0] by (simp add: in_box_def init_follower_def)
  have a: "\<not> approaching ?s
      \<lparr>cx = Fin (1 / 8), cy = Fin (- (1 / 4)), z_min = Fin (1 / 2), count = 4001, found = True\<rparr>"
    by (simp add: approaching_def init_follower_def)
  have p: "\<not> bumper_left_pressed ?s" "bumper_center_pressed ?s"
    by (simp_all add: init_follower_def)
  have k: "\<forall>k. ros_ok ?f k" "change_direction ?s"
    by (simp_all add: cloud_of_def)
  show ?thesis
    unfolding cloudcb_center [OF p] c using a recover_runs [OF k, of "- 0.4" "- 0.2" 20]
    by (simp del: replicate.simps)
qed

subsection \<open>The enabled flag\<close>

text \<open>
  Claim C2, as the code has it. While \<open>enabled_\<close> is false, a frame on which no
  centroid is found publishes no command at all, neither the straight crawl nor a
  recovery command, and changes no member: the recovery loops of that path sit inside
  the test of \<open>enabled_\<close>.
\<close>

theorem disabled_no_centroid_silent:
  assumes "\<not> enabled s" and "\<not> found (box_centroid s (points f))"
  shows "cloudcb s f = (s, [])"
  using assms by (simp add: cloudcb_def Let_def)

theorem disabled_no_centroid_silent_witness:
  "cloudcb (init_follower False) still = (init_follower False, [])"
  using disabled_no_centroid_silent [of "init_follower False" still]
  by (simp add: init_follower_def still_def box_centroid_empty)

text \<open>
  Disabled, left bumper pressed, request active, no centroid: nothing is published and
  the request stays active, so the recovery does not override.
\<close>

theorem disabled_recovery_counterexample:
  "\<not> enabled ((init_follower False)\<lparr>bumper_left_pressed := True, change_direction := True\<rparr>) \<and>
   first_pressed ((init_follower False)\<lparr>bumper_left_pressed := True, change_direction := True\<rparr>)
     = Some LEFT \<and>
   cloudcb ((init_follower False)\<lparr>bumper_left_pressed := True, change_direction := True\<rparr>) still =
     ((init_follower False)\<lparr>bumper_left_pressed := True, change_direction := True\<rparr>, [])"
  by (simp add: init_follower_def first_pressed_def cloudcb_left still_def box_centroid_empty)

text \<open>
  The branch \<open>n > 4000\<close> does not read \<open>enabled_\<close>: a disabled follower that finds a
  centroid beyond \<open>goal_z_\<close> publishes the forward command.
\<close>

lemma free_init: "first_pressed (init_follower en) = None" "\<not> change_direction (init_follower en)"
  by (simp_all add: first_pressed_def init_follower_def)

lemma near_cloud_init:
  "box_centroid (init_follower en) (points (cloud_of 4001 (1 / 8) (- (1 / 4)) (3 / 4) r)) =
     \<lparr>cx = Fin (1 / 8), cy = Fin (- (1 / 4)), z_min = Fin (3 / 4), count = 4001, found = True\<rparr>"
  using centroid_of_cloud [of "init_follower en" 1 "3 / 4" r]
  by (simp add: in_box_def init_follower_def)

lemma approaching_init:
  "approaching (init_follower en)
     \<lparr>cx = u, cy = v, z_min = Fin (3 / 4), count = n, found = True\<rparr>"
  "\<not> approaching (init_follower en)
     \<lparr>cx = u, cy = v, z_min = Fin (1 / 2), count = n, found = True\<rparr>"
  by (simp_all add: approaching_def init_follower_def)

lemma disabled_found_centroid_moves:
  "cloudcb (init_follower False) (cloud_of 4001 (1 / 8) (- (1 / 4)) (3 / 4) 0) =
     (init_follower False, [\<lparr>linear_x = 0.2, angular_z = - 0.3\<rparr>])"
  unfolding cloudcb_free [OF free_init(1)] near_cloud_init
  using free_init(2) [of False] approaching_init(1) [of False]
  by (simp add: approach_cmd_in_band)

subsection \<open>The turn without a lateral signal\<close>

text \<open>
  On a frame with a centroid whose x lies in \<open>[-0.2, 0.2]\<close> and no bumper flag set
  the turn is \<open>angular_z = -0.3\<close>, except in the branch \<open>z - goal_z_ > 0\<close> with
  \<open>change_direction_\<close> set, where \<open>angular_z\<close> keeps its 0.
\<close>

lemma in_band_turn:
  assumes "first_pressed s = None"
    and "found (box_centroid s (points f))"
    and "cx (box_centroid s (points f)) = Fin x" and "- 0.2 \<le> x" and "x \<le> 0.2"
  shows "snd (cloudcb s f) =
     [if approaching s (box_centroid s (points f))
      then \<lparr>linear_x = 0.2, angular_z = (if change_direction s then 0 else - 0.3)\<rparr>
      else \<lparr>linear_x = 0, angular_z = - 0.3\<rparr>]"
  using assms by (simp add: cloudcb_free approach_cmd_in_band hold_cmd_in_band)

text \<open>
  The first frame of a fresh follower, centroid at \<open>x = 1/8\<close>: the turn is \<open>-0.3\<close> in
  both regimes.
\<close>

lemma first_in_band_turn:
  "cloudcb (init_follower True) (cloud_of 4001 (1 / 8) (- (1 / 4)) (3 / 4) 0) =
     (init_follower True, [\<lparr>linear_x = 0.2, angular_z = - 0.3\<rparr>]) \<and>
   cloudcb (init_follower True) (cloud_of 4001 (1 / 8) (- (1 / 4)) (1 / 2) 0) =
     (init_follower True, [\<lparr>linear_x = 0, angular_z = - 0.3\<rparr>])"
proof -
  let ?s = "init_follower True"
  have c2: "box_centroid ?s (points (cloud_of 4001 (1 / 8) (- (1 / 4)) (1 / 2) 0)) =
      \<lparr>cx = Fin (1 / 8), cy = Fin (- (1 / 4)), z_min = Fin (1 / 2), count = 4001, found = True\<rparr>"
    using centroid_of_cloud [of ?s 1 "1 / 2" 0] by (simp add: in_box_def init_follower_def)
  show ?thesis
    unfolding cloudcb_free [OF free_init(1)] near_cloud_init c2
    using free_init(2) [of True] approaching_init [of True]
    by (simp add: approach_cmd_in_band hold_cmd_in_band)
qed

lemma wide_near_cloud:
  "box_centroid (reconfigure (init_follower en) wide_box)
     (points (cloud_of 4001 (1 / 8) (- (1 / 4)) (3 / 4) r)) =
     \<lparr>cx = Fin (1 / 8), cy = Fin (- (1 / 4)), z_min = Fin (3 / 4), count = 4001, found = True\<rparr>"
  using centroid_of_cloud [of "reconfigure (init_follower en) wide_box" 1 "3 / 4" r]
  by (simp add: in_box_def init_follower_def reconfigure_def wide_box_def)

lemma wide_free:
  "first_pressed (reconfigure (init_follower en) wide_box) = None"
  "\<not> change_direction (reconfigure (init_follower en) wide_box)"
  "goal_z (reconfigure (init_follower en) wide_box) = 0.6"
  by (simp_all add: first_pressed_def init_follower_def reconfigure_def wide_box_def)

text \<open>
  Claim C3 says that the last decisive turn is carried across frames: after a right
  turn, a frame whose centroid x lies in \<open>[-0.2, 0.2]\<close> turns with \<open>+0.3\<close>. The code
  does not do this: \<open>direction\<close> is a local of \<open>cloudcb\<close>, set to 0 at every call, so
  what the branches \<open>x > 0.2\<close> store in it is lost when the call returns. With the box
  widened to \<open>-0.5 < x < 0.5\<close>, a frame with its centroid at \<open>x = 1/4\<close> turns right
  (\<open>+0.3\<close>, \<open>rand()\<close> returning 0), and the next frame, centroid at \<open>x = 1/8\<close>,
  turns with \<open>-0.3\<close>.
\<close>

theorem direction_not_carried:
  "last_turn (init_follower True)
     [Reconfigure wide_box, Cloud (cloud_of 4001 (1 / 4) (- (1 / 4)) (3 / 4) 0)] None =
     Some TurnRight \<and>
   snd (run (init_follower True)
      [Reconfigure wide_box, Cloud (cloud_of 4001 (1 / 4) (- (1 / 4)) (3 / 4) 0),
       Cloud (cloud_of 4001 (1 / 8) (- (1 / 4)) (3 / 4) 0)]) =
     [[], [\<lparr>linear_x = 0.2, angular_z = 0.3\<rparr>], [\<lparr>linear_x = 0.2, angular_z = - 0.3\<rparr>]]"
proof -
  let ?w = "reconfigure (init_follower True) wide_box"
  let ?f1 = "cloud_of 4001 (1 / 4) (- (1 / 4)) (3 / 4) 0"
  let ?f2 = "cloud_of 4001 (1 / 8) (- (1 / 4)) (3 / 4) 0"
  have c1: "box_centroid ?w (points ?f1) =
      \<lparr>cx = Fin (1 / 4), cy = Fin (- (1 / 4)), z_min = Fin (3 / 4), count = 4001, found = True\<rparr>"
    using centroid_of_cloud [of ?w 2 "3 / 4" 0]
    by (simp add: in_box_def init_follower_def reconfigure_def wide_box_def)
  have a: "approaching ?w
      \<lparr>cx = u, cy = Fin (- (1 / 4)), z_min = Fin (3 / 4), count = 4001, found = True\<rparr>" for u
    by (simp add: approaching_def wide_free)
  have t: "decisive_turn ?w ?f1 = Some TurnRight"
    by (simp add: decisive_turn_def c1 wide_free)
  have t1: "approach_cmd False False (Fin (1 / 4)) (rand_val ?f1) =
      \<lparr>linear_x = 0.2, angular_z = 0.3\<rparr>"
    by (simp add: approach_cmd_def cloud_of_def new_twist_def)
  have o1: "cloudcb ?w ?f1 = (?w, [\<lparr>linear_x = 0.2, angular_z = 0.3\<rparr>])"
    unfolding cloudcb_free [OF wide_free(1)] c1 using a wide_free(2) [of True] t1 by simp
  have o2: "cloudcb ?w ?f2 = (?w, [\<lparr>linear_x = 0.2, angular_z = - 0.3\<rparr>])"
    unfolding cloudcb_free [OF wide_free(1)] wide_near_cloud using a wide_free(2) [of True]
    by (simp add: approach_cmd_in_band)
  show ?thesis
    using t o1 o2 by simp
qed

subsection \<open>A release before the frame\<close>

text \<open>
  Claim C4, as the code has it. A Released event clears the side's flag and leaves
  \<open>change_direction_\<close> as it is, so it does not cancel a request. The recovery loops
  run only on a frame that finds a flag set: on a frame with no flag set the members
  stay as they are (a request stays pending), and at most one command is published:
  the command of the approach or hold regime when a centroid is found, the straight
  crawl when none is found and \<open>enabled_\<close> is true, nothing otherwise; never a recovery
  command (its \<open>linear_x\<close> is not negative).
\<close>

theorem release_leaves_request_pending:
  "change_direction (fst (bumperEventCB s (release b))) = change_direction s \<and>
   \<not> pressed (fst (bumperEventCB s (release b))) b \<and>
   (first_pressed s = None \<longrightarrow>
      fst (cloudcb s f) = s \<and> length (snd (cloudcb s f)) \<le> 1 \<and>
      (\<forall>c \<in> set (snd (cloudcb s f)). 0 \<le> linear_x c) \<and>
      snd (cloudcb s f) =
        (if found (box_centroid s (points f))
         then [if approaching s (box_centroid s (points f))
               then approach_cmd False (change_direction s) (cx (box_centroid s (points f)))
                      (rand_val f)
               else hold_cmd False (cx (box_centroid s (points f))) (rand_val f)]
         else if enabled s then [\<lparr>linear_x = 0.2, angular_z = 0\<rparr>] else []))"
proof -
  have "change_direction (fst (bumperEventCB s (release b))) = change_direction s \<and>
      \<not> pressed (fst (bumperEventCB s (release b))) b"
    by (cases b) (simp_all add: release_def)
  moreover have "fst (cloudcb s f) = s \<and> length (snd (cloudcb s f)) \<le> 1 \<and>
      (\<forall>c \<in> set (snd (cloudcb s f)). 0 \<le> linear_x c) \<and>
      snd (cloudcb s f) =
        (if found (box_centroid s (points f))
         then [if approaching s (box_centroid s (points f))
               then approach_cmd False (change_direction s) (cx (box_centroid s (points f)))
                      (rand_val f)
               else hold_cmd False (cx (box_centroid s (points f))) (rand_val f)]
         else if enabled s then [\<lparr>linear_x = 0.2, angular_z = 0\<rparr>] else [])"
    if "first_pressed s = None"
    by (simp add: cloudcb_free [OF that] approach_cmd_forward hold_cmd_still new_twist_def)
  ultimately show ?thesis by blast
qed

theorem release_leaves_request_pending_witness:
  "change_direction (fst (run (init_follower True) [Bumper (press LEFT), Bumper (release LEFT)])) \<and>
   fst (cloudcb (fst (run (init_follower True) [Bumper (press LEFT), Bumper (release LEFT)])) still) =
     fst (run (init_follower True) [Bumper (press LEFT), Bumper (release LEFT)])"
  using release_leaves_request_pending
    [of "fst (bumperEventCB (init_follower True) (press LEFT))" LEFT]
    release_leaves_request_pending
    [of "fst (run (init_follower True) [Bumper (press LEFT), Bumper (release LEFT)])" LEFT still]
  by (simp add: press_def release_def init_follower_def first_pressed_def)

text \<open>
  Left pressed, then released, then two frames: both frames publish the straight crawl,
  no recovery command is published, and the request is still pending.
\<close>

theorem released_before_frame_counterexample:
  "snd (run (init_follower True)
      [Bumper (press LEFT), Bumper (release LEFT), Cloud still, Cloud still]) =
     [[], [], [\<lparr>linear_x = 0.2, angular_z = 0\<rparr>], [\<lparr>linear_x = 0.2, angular_z = 0\<rparr>]] \<and>
   change_direction (fst (run (init_follower True)
      [Bumper (press LEFT), Bumper (release LEFT), Cloud still, Cloud still]))"
  by (simp add: press_def release_def init_follower_def cloudcb_free first_pressed_def
      still_def box_centroid_empty new_twist_def)

end
